theory Spec2Isabelle
  imports Main "HOL-Library.Word" "HOL-Library.Multiset"
begin

section \<open>Data model of find\_dupes.go\<close>

text \<open>
  Go's \<open>int64\<close> and \<open>uint64\<close> are both 64-bit words; \<open>sint\<close> reads the signed
  value and \<open>uint\<close> the unsigned one. Addition on words wraps modulo \<open>2 ^ 64\<close>, as
  Go's \<open>+=\<close> on \<open>uint64\<close> does.
\<close>

type_synonym int64 = "64 word"
type_synonym uint64 = "64 word"

text \<open>The struct \<open>File\<close>: the result of a file listing.\<close>

record File =
  Path :: string
  Size :: int64
  ContentHash :: string

text \<open>
  \<open>RemoteManifest\<close> is \<open>map[string][]*File\<close>. Indexing a Go map at a missing key
  yields the zero value, here the nil slice, which has length 0.
\<close>

type_synonym RemoteManifest = "string \<rightharpoonup> File list"

definition bucket :: "RemoteManifest \<Rightarrow> string \<Rightarrow> File list" where
  "bucket manifest hash = (case manifest hash of None \<Rightarrow> [] | Some files \<Rightarrow> files)"

text \<open>
  The struct \<open>Duplication\<close>. Its field \<open>ContentHash\<close> is named \<open>GroupHash\<close> here,
  because the record \<open>File\<close> already has a field of that name. \<open>DuplicateCount\<close> is
  a Go \<open>int\<close>: it counts elements of one slice held in memory, so it stays far below
  the limit of the type and is modelled as an unbounded integer. The type of the field
  \<open>Files\<close> is a parameter: a \<open>[]*File\<close> is read as the list of the records it
  points to (\<open>File list\<close>) up to the section on backing arrays, and as a slice
  header there. No statement of the program assigns to a field of a \<open>File\<close>, so a
  \<open>*File\<close> is represented by the record it points to.
\<close>

record 'files Duplication =
  GroupHash :: string
  Files :: "'files"
  DuplicateCount :: int
  DuplicateSize :: uint64

record 'files DuplicateReport =
  Duplications :: "'files Duplication list"
  TotalDuplicateCount :: int
  TotalDuplicateSize :: uint64

section \<open>The filter policy\<close>

text \<open>\<open>ignoreFile\<close>: the comparison \<open>file.Size < 1000\<close> is a signed one.\<close>

definition ignoreFile :: "File \<Rightarrow> bool" where
  "ignoreFile file = (if Size file <s 1000 then True else False)"

text \<open>\<open>filterDuplicateFiles\<close>: the loop appends each kept file to the result.\<close>

fun filter_loop :: "File list \<Rightarrow> File list \<Rightarrow> File list" where
  "filter_loop [] filteredFiles = filteredFiles"
| "filter_loop (file # files) filteredFiles =
     (if \<not> ignoreFile file then filter_loop files (filteredFiles @ [file])
      else filter_loop files filteredFiles)"

definition filterDuplicateFiles :: "File list \<Rightarrow> File list" where
  "filterDuplicateFiles files = filter_loop files []"

section \<open>The duplicate analyzer\<close>

text \<open>The conversion \<open>uint64(f.Size)\<close> keeps the value modulo \<open>2 ^ 64\<close>.\<close>

definition uint64_of_int64 :: "int64 \<Rightarrow> uint64" where
  "uint64_of_int64 x = word_of_int (sint x)"

text \<open>
  The inner loop of \<open>analyzeDuplicates\<close> over \<open>filteredFiles\<close>: the file at index 0
  is skipped, every other one adds 1 to the count and its size to the sum.
\<close>

fun count_loop :: "nat \<Rightarrow> File list \<Rightarrow> int \<times> uint64 \<Rightarrow> int \<times> uint64" where
  "count_loop idx [] acc = acc"
| "count_loop idx (f # fs) (duplicateCount, duplicateSize) =
     (if idx = 0 then count_loop (idx + 1) fs (duplicateCount, duplicateSize)
      else count_loop (idx + 1) fs
             (duplicateCount + 1, duplicateSize + uint64_of_int64 (Size f)))"

text \<open>
  The outer loop, \<open>for hash, files := range manifest\<close>. The order in which
  \<open>range\<close> yields the keys of a map is chosen by the Go runtime, so that order is
  an argument: \<open>hashes\<close> lists the keys as the loop visits them.
\<close>

fun analyze_loop ::
  "RemoteManifest \<Rightarrow> string list \<Rightarrow> File list DuplicateReport \<Rightarrow> File list DuplicateReport" where
  "analyze_loop manifest [] report = report"
| "analyze_loop manifest (hash # hashes) report =
     (let files = bucket manifest hash in
      if length files \<le> 1 then analyze_loop manifest hashes report
      else
        let filteredFiles = filterDuplicateFiles files in
        if length filteredFiles \<le> 1 then analyze_loop manifest hashes report
        else
          let (duplicateCount, duplicateSize) = count_loop 0 filteredFiles (0, 0) in
          analyze_loop manifest hashes
            \<lparr> Duplications = Duplications report @
                 [\<lparr> GroupHash = hash, Files = filteredFiles,
                    DuplicateCount = duplicateCount, DuplicateSize = duplicateSize \<rparr>],
              TotalDuplicateCount = TotalDuplicateCount report + duplicateCount,
              TotalDuplicateSize = TotalDuplicateSize report + duplicateSize \<rparr>)"

text \<open>The comparison function handed to \<open>sort.Slice\<close>, on unsigned 64-bit values.\<close>

definition size_geq :: "'files Duplication \<Rightarrow> 'files Duplication \<Rightarrow> bool" where
  "size_geq di dj = (DuplicateSize di \<ge> DuplicateSize dj)"

text \<open>
  \<open>analyzeDuplicates\<close>. It starts from \<open>&DuplicateReport{}\<close>, the report with no
  groups and both totals 0. The library routine \<open>sort.Slice\<close> is the argument
  \<open>sort_Slice\<close>: it takes the comparison function and the slice, and returns the
  slice as the routine leaves it.
\<close>

type_synonym 'a slice_sorter = "('a \<Rightarrow> 'a \<Rightarrow> bool) \<Rightarrow> 'a list \<Rightarrow> 'a list"

abbreviation empty_report :: "'files DuplicateReport" where
  "empty_report \<equiv> \<lparr> Duplications = [], TotalDuplicateCount = 0, TotalDuplicateSize = 0 \<rparr>"

definition analyzeDuplicates ::
  "File list Duplication slice_sorter \<Rightarrow> string list \<Rightarrow> RemoteManifest \<Rightarrow>
   File list DuplicateReport" where
  "analyzeDuplicates sort_Slice hashes manifest =
     (let report = analyze_loop manifest hashes empty_report in
      report \<lparr> Duplications := sort_Slice size_geq (Duplications report) \<rparr>)"

section \<open>The scan and the main program\<close>

text \<open>
  \<open>getGoogleDriveManifest\<close>. The call \<open>listing.Files(updateChan)\<close> is the
  argument \<open>listing_Files\<close>: the files it returns and its error value (\<open>None\<close>
  for Go's \<open>nil\<close>). The progress updates it sends on the channel do not reach the
  result. On an error the function returns at once, with the manifest as it was
  created; otherwise each file is appended to the bucket of its content hash.
\<close>

fun manifest_loop :: "File list \<Rightarrow> RemoteManifest \<Rightarrow> RemoteManifest" where
  "manifest_loop [] manifest = manifest"
| "manifest_loop (file # files) manifest =
     manifest_loop files
       (manifest(ContentHash file \<mapsto> bucket manifest (ContentHash file) @ [file]))"

definition getGoogleDriveManifest :: "File list \<times> 'e option \<Rightarrow> RemoteManifest \<times> 'e option" where
  "getGoogleDriveManifest listing_Files =
     (let manifest = Map.empty; (files, err) = listing_Files in
      case err of
        Some e \<Rightarrow> (manifest, Some e)
      | None \<Rightarrow> (manifest_loop files manifest, None))"

text \<open>
  \<open>main\<close>, as far as the report: it exits with status 1 when the home directory or
  the flags cannot be read, runs the scan, waits for it (\<open>wg.Wait()\<close>), panics
  with the scan's error if there is one, and analyzes the manifest otherwise. The
  scan runs in a goroutine of its own and \<open>main\<close> reads its two results only after
  the wait, so the model calls it in sequence. \<open>range_keys\<close> is the order in which
  the runtime lets \<open>range\<close> visit the keys of the manifest.
\<close>

datatype 'e outcome = Exit nat | Panic 'e | Report "File list DuplicateReport"

definition main ::
  "File list Duplication slice_sorter \<Rightarrow> (RemoteManifest \<Rightarrow> string list) \<Rightarrow>
   'e option \<Rightarrow> 'e option \<Rightarrow> File list \<times> 'e option \<Rightarrow> 'e outcome" where
  "main sort_Slice range_keys homedir_Dir flags_Parse listing_Files =
     (case homedir_Dir of
        Some e \<Rightarrow> Exit 1
      | None \<Rightarrow>
          (case flags_Parse of
             Some e \<Rightarrow> Exit 1
           | None \<Rightarrow>
               (let (driveManifest, driveError) = getGoogleDriveManifest listing_Files in
                case driveError of
                  Some e \<Rightarrow> Panic e
                | None \<Rightarrow>
                    Report (analyzeDuplicates sort_Slice (range_keys driveManifest) driveManifest))))"

section \<open>What is asked of \<open>sort.Slice\<close>\<close>

text \<open>
  \<open>sort.Slice\<close> belongs to Go's library. Two properties of it are used, each stated
  as a predicate on the routine.

  It permutes: the slice it leaves holds the elements it was given.

  It orders: no element stands before one that has to sort before it. With a
  comparison function \<open>lessf\<close>, the element \<open>x\<close> may stand before \<open>y\<close> when
  \<open>lessf x y\<close> holds, or when \<open>lessf y x\<close> does not. For a strict order this is the
  usual \<open>\<not> lessf y x\<close>; it also covers a function that answers true on equal
  elements, as \<open>size_geq\<close> does. The routine has to order only when that relation is
  transitive.
\<close>

definition may_precede :: "('a \<Rightarrow> 'a \<Rightarrow> bool) \<Rightarrow> 'a \<Rightarrow> 'a \<Rightarrow> bool" where
  "may_precede lessf x y \<longleftrightarrow> lessf x y \<or> \<not> lessf y x"

definition permutes_slices :: "'a slice_sorter \<Rightarrow> bool" where
  "permutes_slices sort_Slice \<longleftrightarrow> (\<forall>lessf xs. mset (sort_Slice lessf xs) = mset xs)"

definition orders_slices :: "'a slice_sorter \<Rightarrow> bool" where
  "orders_slices sort_Slice \<longleftrightarrow>
     (\<forall>lessf xs. transp (may_precede lessf) \<longrightarrow>
        sorted_wrt (may_precede lessf) (sort_Slice lessf xs))"

text \<open>
  A routine with both properties: insertion sort as Go's library runs it on short
  slices. Each element in turn is swapped with its left neighbour as long as
  \<open>lessf\<close> puts it before that neighbour. \<open>insert_left\<close> works on the part sorted
  so far, held with its last element first.
\<close>

fun insert_left :: "('a \<Rightarrow> 'a \<Rightarrow> bool) \<Rightarrow> 'a \<Rightarrow> 'a list \<Rightarrow> 'a list" where
  "insert_left lessf x [] = [x]"
| "insert_left lessf x (y # ys) =
     (if lessf x y then y # insert_left lessf x ys else x # y # ys)"

definition insertionSort :: "'a slice_sorter" where
  "insertionSort lessf xs =
     rev (foldl (\<lambda>sorted_part x. insert_left lessf x sorted_part) [] xs)"

section \<open>The report in closed form\<close>

text \<open>
  The files of a bucket that the filter keeps, whether a bucket yields a group, the
  group it yields, and the groups of the keys visited, in the order of the visit.
\<close>

definition kept :: "RemoteManifest \<Rightarrow> string \<Rightarrow> File list" where
  "kept manifest hash = filter (\<lambda>f. \<not> ignoreFile f) (bucket manifest hash)"

definition survives :: "RemoteManifest \<Rightarrow> string \<Rightarrow> bool" where
  "survives manifest hash \<longleftrightarrow> 2 \<le> length (kept manifest hash)"

definition group_of :: "RemoteManifest \<Rightarrow> string \<Rightarrow> File list Duplication" where
  "group_of manifest hash =
     \<lparr> GroupHash = hash, Files = kept manifest hash,
       DuplicateCount = int (length (kept manifest hash)) - 1,
       DuplicateSize =
         sum_list (map (\<lambda>f. uint64_of_int64 (Size f)) (tl (kept manifest hash))) \<rparr>"

definition groups :: "RemoteManifest \<Rightarrow> string list \<Rightarrow> File list Duplication list" where
  "groups manifest hashes = map (group_of manifest) (filter (survives manifest) hashes)"

definition counted :: "nat \<Rightarrow> File list \<Rightarrow> File list" where
  "counted idx fs = (if idx = 0 then tl fs else fs)"

text \<open>A list of keys is an order of visit of a manifest when it names each key once.\<close>

definition range_order :: "RemoteManifest \<Rightarrow> string list \<Rightarrow> bool" where
  "range_order manifest hashes \<longleftrightarrow> distinct hashes \<and> set hashes = dom manifest"

section \<open>Slices and their backing arrays\<close>

text \<open>
  A Go slice is a header (array, length, capacity) over a backing array that
  several headers can share, and \<open>append\<close> writes into that array when it has room.
  Here the arrays of \<open>[]*File\<close> slices live in a store. An array is held as the
  cells written so far and its capacity. A header names its array and its length;
  the program never takes a sub-slice, so every header starts at cell 0. \<open>brk\<close> is
  the first address that no array has been given yet.
\<close>

type_synonym addr = nat

record backing =
  cells :: "File list"
  capacity :: nat

datatype slice = NilSlice | Slice addr nat

record store =
  arrays :: "addr \<Rightarrow> backing"
  brk :: addr

fun slice_len :: "slice \<Rightarrow> nat" where
  "slice_len NilSlice = 0"
| "slice_len (Slice a n) = n"

text \<open>
  Reading the record at index \<open>i\<close> through a header. \<open>None\<close> stands for Go's panic:
  the index is not below the length, or the cell was never written and holds the
  nil pointer, which the program then dereferences.
\<close>

fun slice_at :: "store \<Rightarrow> slice \<Rightarrow> nat \<Rightarrow> File option" where
  "slice_at st NilSlice i = None"
| "slice_at st (Slice a n) i =
     (if i < n \<and> i < length (cells (arrays st a)) then Some (cells (arrays st a) ! i)
      else None)"

text \<open>The records a header shows in a store.\<close>

fun slice_files :: "store \<Rightarrow> slice \<Rightarrow> File list" where
  "slice_files st NilSlice = []"
| "slice_files st (Slice a n) = take n (cells (arrays st a))"

text \<open>
  \<open>append(s, x)\<close> for one element. With room left (length below capacity) it
  writes \<open>x\<close> into cell \<open>n\<close> of the array of \<open>s\<close>. Otherwise, and for the nil slice,
  it takes a new array at \<open>brk\<close>, copies the \<open>n\<close> elements and writes \<open>x\<close> after
  them; the runtime chooses how much room to add beyond the one cell needed, which
  is the argument \<open>slack\<close>.
\<close>

definition new_array :: "store \<Rightarrow> File list \<Rightarrow> nat \<Rightarrow> addr \<times> store" where
  "new_array st cs cap =
     (brk st, st \<lparr> arrays := (arrays st) (brk st := \<lparr> cells = cs, capacity = cap \<rparr>),
                  brk := brk st + 1 \<rparr>)"

fun append_st :: "(nat \<Rightarrow> nat) \<Rightarrow> store \<Rightarrow> slice \<Rightarrow> File \<Rightarrow> slice \<times> store" where
  "append_st slack st NilSlice x =
     (let (a, st') = new_array st [x] (1 + slack 0) in (Slice a 1, st'))"
| "append_st slack st (Slice a n) x =
     (let arr = arrays st a in
      if n < capacity arr then
        (Slice a (n + 1),
         st \<lparr> arrays := (arrays st)
                 (a := arr \<lparr> cells := take n (cells arr) @ [x] @ drop (n + 1) (cells arr) \<rparr>) \<rparr>)
      else
        (let (a', st') = new_array st (take n (cells arr) @ [x]) (n + 1 + slack n)
         in (Slice a' (n + 1), st')))"

section \<open>The analyzer on backing arrays\<close>

text \<open>
  \<open>filterDuplicateFiles\<close> again: \<open>range files\<close> fixes the length at the start and
  reads the element at each index when the loop reaches it, from the store as it is
  then; \<open>filteredFiles\<close> starts as the nil slice and grows by \<open>append\<close>.
\<close>

fun filter_loop_st ::
  "(nat \<Rightarrow> nat) \<Rightarrow> slice \<Rightarrow> nat list \<Rightarrow> slice \<Rightarrow> store \<Rightarrow> (slice \<times> store) option" where
  "filter_loop_st slack files [] filteredFiles st = Some (filteredFiles, st)"
| "filter_loop_st slack files (i # idxs) filteredFiles st =
     (case slice_at st files i of
        None \<Rightarrow> None
      | Some file \<Rightarrow>
          if \<not> ignoreFile file then
            (let (filteredFiles', st') = append_st slack st filteredFiles file
             in filter_loop_st slack files idxs filteredFiles' st')
          else filter_loop_st slack files idxs filteredFiles st)"

definition filterDuplicateFiles_st ::
  "(nat \<Rightarrow> nat) \<Rightarrow> slice \<Rightarrow> store \<Rightarrow> (slice \<times> store) option" where
  "filterDuplicateFiles_st slack files st =
     filter_loop_st slack files [0..<slice_len files] NilSlice st"

text \<open>
  The inner loop of \<open>analyzeDuplicates\<close> again. At index 0 the loop continues
  without touching the record; at every other index it reads \<open>f.Size\<close>.
\<close>

fun count_loop_st ::
  "store \<Rightarrow> slice \<Rightarrow> nat list \<Rightarrow> int \<times> uint64 \<Rightarrow> (int \<times> uint64) option" where
  "count_loop_st st filteredFiles [] acc = Some acc"
| "count_loop_st st filteredFiles (idx # idxs) (duplicateCount, duplicateSize) =
     (if idx = 0 then count_loop_st st filteredFiles idxs (duplicateCount, duplicateSize)
      else
        (case slice_at st filteredFiles idx of
           None \<Rightarrow> None
         | Some f \<Rightarrow>
             count_loop_st st filteredFiles idxs
               (duplicateCount + 1, duplicateSize + uint64_of_int64 (Size f))))"

text \<open>
  The manifest with its buckets as slice headers, and the outer loop over it. A
  panic inside the loop ends the run.
\<close>

type_synonym RemoteManifest_st = "string \<rightharpoonup> slice"

definition bucket_st :: "RemoteManifest_st \<Rightarrow> string \<Rightarrow> slice" where
  "bucket_st manifest hash = (case manifest hash of None \<Rightarrow> NilSlice | Some files \<Rightarrow> files)"

fun analyze_loop_st ::
  "(nat \<Rightarrow> nat) \<Rightarrow> RemoteManifest_st \<Rightarrow> string list \<Rightarrow>
   slice DuplicateReport \<Rightarrow> store \<Rightarrow> (slice DuplicateReport \<times> store) option" where
  "analyze_loop_st slack manifest [] report st = Some (report, st)"
| "analyze_loop_st slack manifest (hash # hashes) report st =
     (let files = bucket_st manifest hash in
      if slice_len files \<le> 1 then analyze_loop_st slack manifest hashes report st
      else
        (case filterDuplicateFiles_st slack files st of
           None \<Rightarrow> None
         | Some (filteredFiles, st') \<Rightarrow>
             if slice_len filteredFiles \<le> 1
             then analyze_loop_st slack manifest hashes report st'
             else
               (case count_loop_st st' filteredFiles [0..<slice_len filteredFiles] (0, 0) of
                  None \<Rightarrow> None
                | Some (duplicateCount, duplicateSize) \<Rightarrow>
                    analyze_loop_st slack manifest hashes
                      \<lparr> Duplications = Duplications report @
                           [\<lparr> GroupHash = hash, Files = filteredFiles,
                              DuplicateCount = duplicateCount,
                              DuplicateSize = duplicateSize \<rparr>],
                        TotalDuplicateCount = TotalDuplicateCount report + duplicateCount,
                        TotalDuplicateSize = TotalDuplicateSize report + duplicateSize \<rparr>
                      st')))"

text \<open>
  \<open>analyzeDuplicates\<close> again. \<open>report.Duplications\<close> is a slice of another element
  type, so its array is none of the arrays of \<open>[]*File\<close> slices; it stays a list,
  and \<open>sort.Slice\<close> the argument it was.
\<close>

definition analyzeDuplicates_st ::
  "slice Duplication slice_sorter \<Rightarrow> (nat \<Rightarrow> nat) \<Rightarrow> string list \<Rightarrow> RemoteManifest_st \<Rightarrow>
   store \<Rightarrow> (slice DuplicateReport \<times> store) option" where
  "analyzeDuplicates_st sort_Slice slack hashes manifest st =
     (case analyze_loop_st slack manifest hashes empty_report st of
        None \<Rightarrow> None
      | Some (report, st') \<Rightarrow>
          Some (report \<lparr> Duplications := sort_Slice size_geq (Duplications report) \<rparr>, st'))"

text \<open>
  The manifest that a manifest of headers shows in a store, and the report that a
  report of headers shows.
\<close>

definition manifest_in :: "store \<Rightarrow> RemoteManifest_st \<Rightarrow> RemoteManifest" where
  "manifest_in st manifest = (\<lambda>hash. map_option (slice_files st) (manifest hash))"

definition duplication_in :: "store \<Rightarrow> slice Duplication \<Rightarrow> File list Duplication" where
  "duplication_in st d =
     \<lparr> GroupHash = GroupHash d, Files = slice_files st (Files d),
       DuplicateCount = DuplicateCount d, DuplicateSize = DuplicateSize d \<rparr>"

definition report_in :: "store \<Rightarrow> slice DuplicateReport \<Rightarrow> File list DuplicateReport" where
  "report_in st report =
     \<lparr> Duplications = map (duplication_in st) (Duplications report),
       TotalDuplicateCount = TotalDuplicateCount report,
       TotalDuplicateSize = TotalDuplicateSize report \<rparr>"

text \<open>
  A header is sound in a store when its array has been allocated and holds at least
  as many cells as the header is long; a manifest is sound when its headers are.
\<close>

fun slice_ok :: "store \<Rightarrow> slice \<Rightarrow> bool" where
  "slice_ok st NilSlice = True"
| "slice_ok st (Slice a n) = (a < brk st \<and> n \<le> length (cells (arrays st a)))"

definition manifest_ok :: "store \<Rightarrow> RemoteManifest_st \<Rightarrow> bool" where
  "manifest_ok st manifest \<longleftrightarrow> (\<forall>hash files. manifest hash = Some files \<longrightarrow> slice_ok st files)"

text \<open>
  Where a header's array lies with respect to an address, and a report whose groups
  have sound headers.
\<close>

fun slice_above :: "addr \<Rightarrow> slice \<Rightarrow> bool" where
  "slice_above b NilSlice = True"
| "slice_above b (Slice a n) = (b \<le> a)"

fun slice_below :: "addr \<Rightarrow> slice \<Rightarrow> bool" where
  "slice_below b NilSlice = True"
| "slice_below b (Slice a n) = (a < b)"

definition report_ok :: "store \<Rightarrow> slice DuplicateReport \<Rightarrow> bool" where
  "report_ok st report \<longleftrightarrow> list_all (\<lambda>d. slice_ok st (Files d)) (Duplications report)"

text \<open>No array below address \<open>b\<close> differs between two stores.\<close>

definition same_below :: "addr \<Rightarrow> store \<Rightarrow> store \<Rightarrow> bool" where
  "same_below b st st' \<longleftrightarrow> (\<forall>a. a < b \<longrightarrow> arrays st' a = arrays st a)"

section \<open>Manifests used as examples\<close>

definition file_a :: File where
  "file_a = \<lparr> Path = ''a'', Size = 2000, ContentHash = ''h1'' \<rparr>"

definition file_b :: File where
  "file_b = \<lparr> Path = ''b'', Size = 2000, ContentHash = ''h1'' \<rparr>"

definition file_c :: File where
  "file_c = \<lparr> Path = ''c'', Size = 500, ContentHash = ''h2'' \<rparr>"

definition file_d :: File where
  "file_d = \<lparr> Path = ''d'', Size = 5000, ContentHash = ''h3'' \<rparr>"

definition file_e :: File where
  "file_e = \<lparr> Path = ''e'', Size = 5000, ContentHash = ''h3'' \<rparr>"

text \<open>One group of two files and a bucket with one small file.\<close>

definition manifest_one_group :: RemoteManifest where
  "manifest_one_group = [''h1'' \<mapsto> [file_a, file_b], ''h2'' \<mapsto> [file_c]]"

text \<open>Two groups, of duplicate sizes 2000 and 5000.\<close>

definition manifest_two_groups :: RemoteManifest where
  "manifest_two_groups = [''h1'' \<mapsto> [file_a, file_b], ''h3'' \<mapsto> [file_d, file_e]]"

text \<open>A bucket that starts with a record of negative size.\<close>

definition file_n :: File where
  "file_n = \<lparr> Path = ''n'', Size = - 5, ContentHash = ''h1'' \<rparr>"

definition manifest_with_negative :: RemoteManifest where
  "manifest_with_negative = [''h1'' \<mapsto> [file_n, file_a, file_b]]"

text \<open>
  Files of the largest size an \<open>int64\<close> holds, \<open>2 ^ 63 - 1\<close>, and a bucket of four
  of them.
\<close>

definition file_max :: "string \<Rightarrow> File" where
  "file_max p = \<lparr> Path = p, Size = 0x7FFFFFFFFFFFFFFF, ContentHash = ''h'' \<rparr>"

definition manifest_max :: RemoteManifest where
  "manifest_max =
     [''h'' \<mapsto> [file_max ''m1'', file_max ''m2'', file_max ''m3'', file_max ''m4'']]"

text \<open>
  A bucket whose counted sizes add up to \<open>2 ^ 64 + 998\<close>: a file of size 1000, two
  of size \<open>2 ^ 63 - 1\<close> and another of size 1000.
\<close>

definition file_small :: "string \<Rightarrow> File" where
  "file_small p = \<lparr> Path = p, Size = 1000, ContentHash = ''h'' \<rparr>"

definition manifest_wrap :: RemoteManifest where
  "manifest_wrap =
     [''h'' \<mapsto> [file_small ''s1'', file_max ''m1'', file_max ''m2'', file_small ''s2'']]"

text \<open>Two buckets of three files of size \<open>2 ^ 63 - 1\<close> each.\<close>

definition file_max_g :: "string \<Rightarrow> File" where
  "file_max_g p = \<lparr> Path = p, Size = 0x7FFFFFFFFFFFFFFF, ContentHash = ''g'' \<rparr>"

definition manifest_two_max :: RemoteManifest where
  "manifest_two_max =
     [''h'' \<mapsto> [file_max ''m1'', file_max ''m2'', file_max ''m3''],
      ''g'' \<mapsto> [file_max_g ''n1'', file_max_g ''n2'', file_max_g ''n3'']]"

text \<open>
  A store with the arrays of two buckets, and the manifest of their headers: the
  manifest \<open>manifest_one_group\<close> on backing arrays.
\<close>

definition store_ex :: store where
  "store_ex =
     \<lparr> arrays = (\<lambda>a. \<lparr> cells = [], capacity = 0 \<rparr>)
         (0 := \<lparr> cells = [file_a, file_b], capacity = 2 \<rparr>,
          1 := \<lparr> cells = [file_c], capacity = 1 \<rparr>),
       brk = 2 \<rparr>"

definition manifest_st_ex :: RemoteManifest_st where
  "manifest_st_ex = [''h1'' \<mapsto> Slice 0 2, ''h2'' \<mapsto> Slice 1 1]"

section \<open>The loops in closed form\<close>

lemma ignoreFile_iff: "ignoreFile f \<longleftrightarrow> sint (Size f) < 1000"
  by (simp add: ignoreFile_def word_sless_alt)

lemma filter_loop_eq: "filter_loop files acc = acc @ filter (\<lambda>f. \<not> ignoreFile f) files"
  by (induction files arbitrary: acc) auto

lemma filterDuplicateFiles_eq:
  "filterDuplicateFiles files = filter (\<lambda>f. \<not> ignoreFile f) files"
  by (simp add: filterDuplicateFiles_def filter_loop_eq)

lemma kept_eq: "kept manifest hash = filterDuplicateFiles (bucket manifest hash)"
  by (simp add: kept_def filterDuplicateFiles_eq)

lemma count_loop_eq:
  "count_loop idx fs (c, s) =
     (c + int (length (counted idx fs)),
      s + sum_list (map (\<lambda>f. uint64_of_int64 (Size f)) (counted idx fs)))"
  by (induction idx fs "(c, s)" arbitrary: c s rule: count_loop.induct)
     (auto simp: counted_def)

lemma uint64_of_int64_id: "uint64_of_int64 x = x"
  by (simp add: uint64_of_int64_def)

lemma survives_bucket: "survives manifest hash \<Longrightarrow> \<not> length (bucket manifest hash) \<le> 1"
  unfolding survives_def kept_def
  using length_filter_le [of "\<lambda>f. \<not> ignoreFile f" "bucket manifest hash"] by linarith

lemma analyze_loop_eq:
  "analyze_loop manifest hashes report =
     \<lparr> Duplications = Duplications report @ groups manifest hashes,
       TotalDuplicateCount = TotalDuplicateCount report
          + sum_list (map DuplicateCount (groups manifest hashes)),
       TotalDuplicateSize = TotalDuplicateSize report
          + sum_list (map DuplicateSize (groups manifest hashes)) \<rparr>"
proof (induction hashes arbitrary: report)
  case Nil
  show ?case by (simp add: groups_def)
next
  case (Cons hash hashes)
  show ?case
  proof (cases "survives manifest hash")
    case True
    note nb = survives_bucket [OF True]
    from True have nk: "\<not> length (filterDuplicateFiles (bucket manifest hash)) \<le> 1"
      by (simp add: survives_def kept_eq)
    have g: "groups manifest (hash # hashes) = group_of manifest hash # groups manifest hashes"
      using True by (simp add: groups_def)
    have cl: "count_loop 0 (filterDuplicateFiles (bucket manifest hash)) (0, 0)
       = (DuplicateCount (group_of manifest hash), DuplicateSize (group_of manifest hash))"
      using True by (simp add: count_loop_eq counted_def group_of_def kept_def
          filterDuplicateFiles_eq survives_def)
    show ?thesis
      using nb nk
      apply (simp add: Cons.IH g cl Let_def)
      apply (simp add: group_of_def kept_def filterDuplicateFiles_eq add.assoc)
      done
  next
    case False
    then have "length (bucket manifest hash) \<le> 1
        \<or> length (filterDuplicateFiles (bucket manifest hash)) \<le> 1"
      by (simp add: survives_def kept_eq)
    moreover have "groups manifest (hash # hashes) = groups manifest hashes"
      using False by (simp add: groups_def)
    ultimately show ?thesis
      by (auto simp add: Cons.IH Let_def)
  qed
qed

lemma analyzeDuplicates_eq:
  "analyzeDuplicates sort_Slice hashes manifest =
     \<lparr> Duplications = sort_Slice size_geq (groups manifest hashes),
       TotalDuplicateCount = sum_list (map DuplicateCount (groups manifest hashes)),
       TotalDuplicateSize = sum_list (map DuplicateSize (groups manifest hashes)) \<rparr>"
  by (simp add: analyzeDuplicates_def analyze_loop_eq)

lemma in_groups_iff:
  "d \<in> set (groups manifest hashes) \<longleftrightarrow>
     (\<exists>hash \<in> set hashes. survives manifest hash \<and> d = group_of manifest hash)"
  by (auto simp: groups_def)

lemma GroupHash_group_of: "GroupHash (group_of manifest hash) = hash"
  by (simp add: group_of_def)

lemma mset_groups:
  assumes "mset hs1 = mset hs2"
  shows "mset (groups manifest hs1) = mset (groups manifest hs2)"
proof -
  have "mset (groups manifest hs)
      = image_mset (group_of manifest) (filter_mset (survives manifest) (mset hs))" for hs
    by (simp add: groups_def)
  with assms show ?thesis by simp
qed

lemma groups_remove:
  assumes "\<not> survives manifest hash"
  shows "groups (manifest(hash := None)) (removeAll hash hashes) = groups manifest hashes"
proof -
  define manifest' where "manifest' = manifest(hash := None)"
  have g: "group_of manifest' h = group_of manifest h" if "h \<noteq> hash" for h
    using that by (simp add: manifest'_def group_of_def kept_def bucket_def)
  have s: "survives manifest' h = survives manifest h" if "h \<noteq> hash" for h
    using that by (simp add: manifest'_def survives_def kept_def bucket_def)
  have "groups manifest' (removeAll hash hashes) = groups manifest hashes"
  proof (induction hashes)
    case Nil
    show ?case by (simp add: groups_def)
  next
    case (Cons h hs)
    show ?case
    proof (cases "h = hash")
      case True
      with assms Cons show ?thesis by (simp add: groups_def)
    next
      case False
      with Cons g [OF False] s [OF False] show ?thesis by (simp add: groups_def)
    qed
  qed
  then show ?thesis by (simp add: manifest'_def)
qed

section \<open>The two ways out of the scan\<close>

lemma getGoogleDriveManifest_error:
  "getGoogleDriveManifest (files, Some e) = (Map.empty, Some e)"
  by (simp add: getGoogleDriveManifest_def Let_def)

lemma getGoogleDriveManifest_ok:
  "getGoogleDriveManifest (files, None) = (manifest_loop files Map.empty, None)"
  by (simp add: getGoogleDriveManifest_def Let_def)

section \<open>Insertion sort permutes and orders\<close>

lemma mset_insert_left: "mset (insert_left lessf x ys) = add_mset x (mset ys)"
  by (induction ys) auto

lemma mset_foldl_insert_left:
  "mset (foldl (\<lambda>p x. insert_left lessf x p) acc xs) = mset acc + mset xs"
  by (induction xs arbitrary: acc) (auto simp: mset_insert_left)

lemma permutes_insertionSort: "permutes_slices insertionSort"
  by (simp add: permutes_slices_def insertionSort_def mset_foldl_insert_left)

lemma set_insert_left: "set (insert_left lessf x ys) = insert x (set ys)"
  by (induction ys) auto

lemma sorted_insert_left:
  assumes "transp (may_precede lessf)"
    and "sorted_wrt (\<lambda>a b. may_precede lessf b a) ys"
  shows "sorted_wrt (\<lambda>a b. may_precede lessf b a) (insert_left lessf x ys)"
  using assms(2)
proof (induction ys)
  case Nil
  show ?case by simp
next
  case (Cons y ys)
  show ?case
  proof (cases "lessf x y")
    case True
    then have "may_precede lessf x y" by (simp add: may_precede_def)
    with Cons True show ?thesis by (auto simp: set_insert_left)
  next
    case False
    then have yx: "may_precede lessf y x" by (simp add: may_precede_def)
    have "may_precede lessf z x" if "z \<in> set ys" for z
    proof -
      from Cons.prems that have "may_precede lessf z y" by simp
      with yx assms(1) show ?thesis by (blast dest: transpD)
    qed
    with Cons.prems False yx show ?thesis by auto
  qed
qed

lemma sorted_foldl_insert_left:
  assumes "transp (may_precede lessf)"
  shows "sorted_wrt (\<lambda>a b. may_precede lessf b a) acc \<Longrightarrow>
     sorted_wrt (\<lambda>a b. may_precede lessf b a) (foldl (\<lambda>p x. insert_left lessf x p) acc xs)"
  by (induction xs arbitrary: acc) (auto intro: sorted_insert_left [OF assms])

lemma orders_insertionSort: "orders_slices insertionSort"
  unfolding orders_slices_def insertionSort_def
  by (auto simp: sorted_wrt_rev intro: sorted_foldl_insert_left)

section \<open>The comparison function and sorted reports\<close>

lemma may_precede_size_geq: "may_precede size_geq = size_geq"
  by (auto simp: may_precede_def size_geq_def fun_eq_iff)

lemma transp_size_geq: "transp size_geq"
  by (auto simp: transp_def size_geq_def)

lemma size_geq_fun: "size_geq = (\<lambda>x y. DuplicateSize y \<le> DuplicateSize x)"
  by (auto simp: fun_eq_iff size_geq_def)

lemma sorted_by_size:
  assumes "orders_slices sort_Slice"
  shows "sorted_wrt size_geq (sort_Slice size_geq ds)"
proof -
  have "transp (may_precede (size_geq :: 'a Duplication \<Rightarrow> 'a Duplication \<Rightarrow> bool))"
    by (simp add: may_precede_size_geq transp_size_geq)
  with assms have "sorted_wrt (may_precede size_geq) (sort_Slice size_geq ds)"
    by (simp add: orders_slices_def)
  then show ?thesis by (simp add: may_precede_size_geq)
qed

lemma set_sorted_groups:
  "permutes_slices sort_Slice \<Longrightarrow> set (sort_Slice size_geq ds) = set ds"
  by (metis permutes_slices_def set_mset_mset)

lemma sum_list_sorted:
  fixes f :: "'a \<Rightarrow> 'b::comm_monoid_add"
  assumes "permutes_slices sort_Slice"
  shows "sum_list (map f (sort_Slice lessf ds)) = sum_list (map f ds)"
proof -
  have "mset (map f (sort_Slice lessf ds)) = mset (map f ds)"
    using assms by (simp add: permutes_slices_def)
  then show ?thesis by (metis sum_mset_sum_list)
qed

lemma descending_unique:
  fixes xs ys :: "uint64 list"
  assumes "sorted_wrt (\<ge>) xs" "sorted_wrt (\<ge>) ys" "mset xs = mset ys"
  shows "xs = ys"
proof -
  have "sorted (rev xs)" "sorted (rev ys)"
    using assms(1,2) by (simp_all add: sorted_wrt_rev)
  moreover have "mset (rev xs) = mset (rev ys)" using assms(3) by simp
  ultimately have "rev xs = rev ys"
    by (metis properties_for_sort)
  then show ?thesis by simp
qed

section \<open>Sizes as numbers\<close>

lemma uint_of_nonneg:
  fixes x :: "64 word"
  assumes "0 \<le> sint x"
  shows "uint x = sint x"
proof -
  have "sint x < 2 ^ 63" using sint_lt [of x] by simp
  then have "sint x < 2 ^ 64" by simp
  with assms have "take_bit 64 (sint x) = sint x"
    by (simp add: take_bit_int_eq_self)
  then show ?thesis by (simp add: uint_sint)
qed

lemma uint_sum_list:
  "uint (sum_list (ws :: 64 word list)) = (sum_list (map uint ws)) mod 2 ^ 64"
  by (induction ws) (simp_all add: uint_word_ariths mod_add_right_eq)

lemma in_set_tl: "x \<in> set (tl xs) \<Longrightarrow> x \<in> set xs"
  by (cases xs) simp_all

lemma kept_sizes: "f \<in> set (kept manifest hash) \<Longrightarrow> 1000 \<le> sint (Size f)"
  by (simp add: kept_def ignoreFile_iff)

lemma kept_uint:
  assumes "f \<in> set (kept manifest hash)"
  shows "uint (uint64_of_int64 (Size f)) = sint (Size f)"
proof -
  have "0 \<le> sint (Size f)" using kept_sizes [OF assms] by simp
  then show ?thesis by (simp add: uint64_of_int64_id uint_of_nonneg)
qed

lemma uint_group_size:
  "uint (DuplicateSize (group_of manifest hash))
     = (\<Sum>f\<leftarrow>tl (kept manifest hash). sint (Size f)) mod 2 ^ 64"
proof -
  have "(\<Sum>f\<leftarrow>tl (kept manifest hash). uint (uint64_of_int64 (Size f)))
      = (\<Sum>f\<leftarrow>tl (kept manifest hash). sint (Size f))"
    by (rule arg_cong [where f = sum_list], rule map_cong [OF refl],
        rule kept_uint, rule in_set_tl)
  moreover have "uint (DuplicateSize (group_of manifest hash))
     = (\<Sum>f\<leftarrow>tl (kept manifest hash). uint (uint64_of_int64 (Size f))) mod 2 ^ 64"
    by (simp add: group_of_def uint_sum_list comp_def)
  ultimately show ?thesis by (simp only:)
qed

lemma kept_sum_nonneg: "0 \<le> (\<Sum>f\<leftarrow>tl (kept manifest hash). sint (Size f))"
proof (rule sum_list_nonneg)
  fix x assume "x \<in> set (map (\<lambda>f. sint (Size f)) (tl (kept manifest hash)))"
  then obtain f where "f \<in> set (tl (kept manifest hash))" "x = sint (Size f)" by auto
  with kept_sizes [of f manifest hash] in_set_tl [of f "kept manifest hash"]
  show "0 \<le> x" by fastforce
qed

lemma uint_group_size_exact:
  assumes "(\<Sum>f\<leftarrow>tl (kept manifest hash). sint (Size f)) < 2 ^ 64"
  shows "uint (DuplicateSize (group_of manifest hash))
     = (\<Sum>f\<leftarrow>tl (kept manifest hash). sint (Size f))"
  using assms kept_sum_nonneg [of manifest hash] by (simp add: uint_group_size)

lemma uint_sum_list_exact:
  fixes ws :: "64 word list"
  assumes "sum_list (map uint ws) < 2 ^ 64"
  shows "uint (sum_list ws) = sum_list (map uint ws)"
proof -
  have "0 \<le> sum_list (map uint ws)"
    by (rule sum_list_nonneg) auto
  with assms show ?thesis by (simp add: uint_sum_list)
qed

section \<open>The analyzer on backing arrays: frame and agreement\<close>

lemma same_below_refl: "same_below b st st"
  by (simp add: same_below_def)

lemma same_below_trans:
  "same_below b st st1 \<Longrightarrow> same_below b st1 st2 \<Longrightarrow> same_below b st st2"
  by (simp add: same_below_def)

lemma same_below_mono: "same_below b st st' \<Longrightarrow> c \<le> b \<Longrightarrow> same_below c st st'"
  by (simp add: same_below_def)

lemma slice_ok_kept:
  assumes "slice_ok st s" "same_below (brk st) st st'" "brk st \<le> brk st'"
  shows "slice_ok st' s \<and> slice_files st' s = slice_files st s
     \<and> (\<forall>i. slice_at st' s i = slice_at st s i)"
  using assms by (cases s) (auto simp: same_below_def)

lemma slice_below_kept:
  assumes "slice_ok st s" "slice_below b s" "same_below b st st'" "brk st \<le> brk st'"
  shows "slice_ok st' s \<and> slice_files st' s = slice_files st s
     \<and> (\<forall>i. slice_at st' s i = slice_at st s i)"
  using assms by (cases s) (auto simp: same_below_def)

lemma append_st_owned:
  assumes "slice_ok st s" "slice_above b s" "b \<le> brk st"
    and "append_st slack st s x = (s', st')"
  shows "same_below b st st' \<and> brk st \<le> brk st' \<and> slice_ok st' s' \<and> slice_above b s'
     \<and> slice_files st' s' = slice_files st s @ [x]"
proof (cases s)
  case NilSlice
  with assms show ?thesis
    by (auto simp: new_array_def same_below_def)
next
  case (Slice a n)
  show ?thesis
  proof (cases "n < capacity (arrays st a)")
    case True
    with assms Slice show ?thesis
      by (auto simp: same_below_def Let_def)
  next
    case False
    with assms Slice show ?thesis
      by (auto simp: new_array_def same_below_def Let_def)
  qed
qed

lemma slice_at_files:
  assumes "slice_ok st s" "i < slice_len s"
  shows "slice_at st s i = Some (slice_files st s ! i)"
  using assms by (cases s) auto

lemma length_slice_files: "slice_ok st s \<Longrightarrow> length (slice_files st s) = slice_len s"
  by (cases s) auto

lemma filter_loop_st_frame:
  assumes "slice_ok st files" "slice_below b files" "b \<le> brk st"
    and "slice_ok st filtered" "slice_above b filtered"
    and "\<forall>i \<in> set idxs. i < slice_len files"
  shows "\<exists>filtered' st'. filter_loop_st slack files idxs filtered st = Some (filtered', st')
     \<and> same_below b st st' \<and> brk st \<le> brk st'
     \<and> slice_ok st' filtered' \<and> slice_above b filtered'
     \<and> slice_files st' filtered'
        = slice_files st filtered
          @ filter (\<lambda>f. \<not> ignoreFile f) (map (\<lambda>i. slice_files st files ! i) idxs)"
  using assms
proof (induction idxs arbitrary: filtered st)
  case Nil
  then show ?case by (simp add: same_below_refl)
next
  case (Cons i idxs)
  let ?file = "slice_files st files ! i"
  have at: "slice_at st files i = Some ?file"
    using Cons.prems by (simp add: slice_at_files)
  show ?case
  proof (cases "ignoreFile ?file")
    case True
    from Cons.IH [of st filtered] Cons.prems
    obtain filtered' st' where r: "filter_loop_st slack files idxs filtered st = Some (filtered', st')"
      "same_below b st st'" "brk st \<le> brk st'" "slice_ok st' filtered'" "slice_above b filtered'"
      "slice_files st' filtered' = slice_files st filtered
          @ filter (\<lambda>f. \<not> ignoreFile f) (map (\<lambda>i. slice_files st files ! i) idxs)"
      by auto
    with True at show ?thesis by simp
  next
    case False
    obtain f1 st1 where ap: "append_st slack st filtered ?file = (f1, st1)"
      by (cases "append_st slack st filtered ?file")
    from append_st_owned [OF Cons.prems(4) Cons.prems(5) Cons.prems(3) ap]
    have a1: "same_below b st st1" "brk st \<le> brk st1" "slice_ok st1 f1" "slice_above b f1"
      "slice_files st1 f1 = slice_files st filtered @ [?file]"
      by simp_all
    from slice_below_kept [OF Cons.prems(1) Cons.prems(2) a1(1) a1(2)]
    have k: "slice_ok st1 files" "slice_files st1 files = slice_files st files"
      by simp_all
    have b1: "b \<le> brk st1" using Cons.prems(3) a1(2) by simp
    from Cons.IH [OF k(1) Cons.prems(2) b1 a1(3) a1(4)] Cons.prems(6)
    obtain filtered' st' where r: "filter_loop_st slack files idxs f1 st1 = Some (filtered', st')"
      "same_below b st1 st'" "brk st1 \<le> brk st'" "slice_ok st' filtered'" "slice_above b filtered'"
      "slice_files st' filtered' = slice_files st1 f1
          @ filter (\<lambda>f. \<not> ignoreFile f) (map (\<lambda>i. slice_files st1 files ! i) idxs)"
      by auto
    have "same_below b st st'" using a1(1) r(2) by (rule same_below_trans)
    moreover have "brk st \<le> brk st'" using a1(2) r(3) by simp
    ultimately show ?thesis
      using False at ap r a1(5) k(2) by simp
  qed
qed

lemma filterDuplicateFiles_st_frame:
  assumes "slice_ok st files"
  shows "\<exists>filtered' st'. filterDuplicateFiles_st slack files st = Some (filtered', st')
     \<and> same_below (brk st) st st' \<and> brk st \<le> brk st'
     \<and> slice_ok st' filtered'
     \<and> slice_files st' filtered' = filterDuplicateFiles (slice_files st files)"
proof -
  have below: "slice_below (brk st) files" using assms by (cases files) auto
  have idx: "\<forall>i \<in> set [0..<slice_len files]. i < slice_len files" by simp
  have "map (\<lambda>i. slice_files st files ! i) [0..<slice_len files] = slice_files st files"
    using length_slice_files [OF assms] map_nth [of "slice_files st files"] by simp
  with filter_loop_st_frame [OF assms below order_refl _ _ idx, of NilSlice slack]
  show ?thesis
    by (auto simp: filterDuplicateFiles_st_def filterDuplicateFiles_eq)
qed

lemma count_loop_st_eq:
  assumes "slice_ok st fs" "k \<le> slice_len fs"
  shows "count_loop_st st fs [k..<slice_len fs] (c, s)
       = Some (count_loop k (drop k (slice_files st fs)) (c, s))"
  using assms(2)
proof (induction "slice_len fs - k" arbitrary: k c s)
  case 0
  then show ?case using length_slice_files [OF assms(1)] by simp
next
  case (Suc m)
  then have lt: "k < slice_len fs" by simp
  then have up: "[k..<slice_len fs] = k # [Suc k..<slice_len fs]"
    by (simp add: upt_conv_Cons)
  have dr: "drop k (slice_files st fs) = slice_files st fs ! k # drop (Suc k) (slice_files st fs)"
    using lt length_slice_files [OF assms(1)] by (simp add: Cons_nth_drop_Suc)
  have at: "slice_at st fs k = Some (slice_files st fs ! k)"
    using assms(1) lt by (rule slice_at_files)
  have m: "m = slice_len fs - Suc k" using Suc.hyps(2) by simp
  have le: "Suc k \<le> slice_len fs" using lt by simp
  note ih = Suc.hyps(1) [OF m le]
  show ?case
  proof (cases "k = 0")
    case True
    with ih [of c s] show ?thesis unfolding up dr by simp
  next
    case False
    with ih at show ?thesis unfolding up dr by simp
  qed
qed

lemma slice_ok_mono:
  assumes "slice_ok st s" "same_below (brk st) st st'" "brk st \<le> brk st'"
  shows "slice_ok st' s"
  using slice_ok_kept [OF assms] by simp

lemma manifest_ok_kept:
  assumes "manifest_ok st manifest" "same_below (brk st) st st'" "brk st \<le> brk st'"
  shows "manifest_ok st' manifest \<and> manifest_in st' manifest = manifest_in st manifest"
proof -
  have "slice_ok st' files \<and> slice_files st' files = slice_files st files"
    if "manifest hash = Some files" for hash files
    using assms that slice_ok_kept [of st files st'] by (simp add: manifest_ok_def)
  then show ?thesis
    by (auto simp: manifest_ok_def manifest_in_def fun_eq_iff map_option_case split: option.splits)
qed

lemma report_in_kept:
  assumes "report_ok st report" "same_below (brk st) st st'" "brk st \<le> brk st'"
  shows "report_ok st' report \<and> report_in st' report = report_in st report"
proof -
  have "slice_ok st' (Files d) \<and> duplication_in st' d = duplication_in st d"
    if "d \<in> set (Duplications report)" for d
    using assms that slice_ok_kept [of st "Files d" st']
    by (simp add: report_ok_def list_all_iff duplication_in_def)
  then show ?thesis
    by (simp add: report_ok_def report_in_def list_all_iff)
qed

lemma bucket_in: "bucket (manifest_in st manifest) hash = slice_files st (bucket_st manifest hash)"
  by (simp add: bucket_def bucket_st_def manifest_in_def split: option.splits)

lemma bucket_st_ok: "manifest_ok st manifest \<Longrightarrow> slice_ok st (bucket_st manifest hash)"
  by (simp add: bucket_st_def manifest_ok_def split: option.splits)


lemma analyze_loop_st_frame:
  assumes "manifest_ok st manifest" "report_ok st report"
  shows "\<exists>report' st'. analyze_loop_st slack manifest hashes report st = Some (report', st')
     \<and> same_below (brk st) st st' \<and> brk st \<le> brk st'
     \<and> report_ok st' report'
     \<and> report_in st' report' = analyze_loop (manifest_in st manifest) hashes (report_in st report)"
  using assms
proof (induction hashes arbitrary: report st)
  case Nil
  then show ?case by (simp add: same_below_refl)
next
  case (Cons hash hashes)
  let ?files = "bucket_st manifest hash"
  have fok: "slice_ok st ?files" using Cons.prems(1) by (rule bucket_st_ok)
  have len: "length (bucket (manifest_in st manifest) hash) = slice_len ?files"
    by (simp add: bucket_in length_slice_files [OF fok])
  show ?case
  proof (cases "slice_len ?files \<le> 1")
    case True
    with Cons.IH [OF Cons.prems] len show ?thesis by (simp add: Let_def)
  next
    case False
    from filterDuplicateFiles_st_frame [OF fok, of slack]
    obtain ff st1 where f: "filterDuplicateFiles_st slack ?files st = Some (ff, st1)"
      "same_below (brk st) st st1" "brk st \<le> brk st1" "slice_ok st1 ff"
      "slice_files st1 ff = filterDuplicateFiles (bucket (manifest_in st manifest) hash)"
      by (auto simp: bucket_in)
    have lff: "length (filterDuplicateFiles (bucket (manifest_in st manifest) hash)) = slice_len ff"
      using length_slice_files [OF f(4)] f(5) by simp
    from manifest_ok_kept [OF Cons.prems(1) f(2) f(3)]
    have m1: "manifest_ok st1 manifest" "manifest_in st1 manifest = manifest_in st manifest"
      by simp_all
    from report_in_kept [OF Cons.prems(2) f(2) f(3)]
    have r1: "report_ok st1 report" "report_in st1 report = report_in st report"
      by simp_all
    show ?thesis
    proof (cases "slice_len ff \<le> 1")
      case True
      from Cons.IH [OF m1(1) r1(1)]
      obtain report' st' where r:
        "analyze_loop_st slack manifest hashes report st1 = Some (report', st')"
        "same_below (brk st1) st1 st'" "brk st1 \<le> brk st'" "report_ok st' report'"
        "report_in st' report' = analyze_loop (manifest_in st1 manifest) hashes (report_in st1 report)"
        by blast
      have "same_below (brk st) st st'"
        using f(2) same_below_mono [OF r(2) f(3)] by (rule same_below_trans)
      moreover have "brk st \<le> brk st'" using f(3) r(3) by simp
      ultimately show ?thesis
        using False True f(1) r(1) r(4) r(5) len lff m1(2) r1(2) by (simp add: Let_def)
    next
      case nt: False
      obtain dc ds where cl: "count_loop 0 (slice_files st1 ff) (0, 0) = (dc, ds)"
        by (cases "count_loop 0 (slice_files st1 ff) (0, 0)")
      have cst: "count_loop_st st1 ff [0..<slice_len ff] (0, 0) = Some (dc, ds)"
        using count_loop_st_eq [OF f(4), of 0 0 0] cl by simp
      let ?report1 = "\<lparr> Duplications = Duplications report @
                           [\<lparr> GroupHash = hash, Files = ff,
                              DuplicateCount = dc, DuplicateSize = ds \<rparr>],
                        TotalDuplicateCount = TotalDuplicateCount report + dc,
                        TotalDuplicateSize = TotalDuplicateSize report + ds \<rparr>"
      have ok1: "report_ok st1 ?report1"
        using r1(1) f(4) by (simp add: report_ok_def)
      have in1: "report_in st1 ?report1 =
         \<lparr> Duplications = Duplications (report_in st report) @
                           [\<lparr> GroupHash = hash, Files = slice_files st1 ff,
                              DuplicateCount = dc, DuplicateSize = ds \<rparr>],
                        TotalDuplicateCount = TotalDuplicateCount (report_in st report) + dc,
                        TotalDuplicateSize = TotalDuplicateSize (report_in st report) + ds \<rparr>"
        using r1(2) by (simp add: report_in_def duplication_in_def)
      from Cons.IH [OF m1(1) ok1]
      obtain report' st' where r:
        "analyze_loop_st slack manifest hashes ?report1 st1 = Some (report', st')"
        "same_below (brk st1) st1 st'" "brk st1 \<le> brk st'" "report_ok st' report'"
        "report_in st' report' = analyze_loop (manifest_in st1 manifest) hashes (report_in st1 ?report1)"
        by blast
      have "same_below (brk st) st st'"
        using f(2) same_below_mono [OF r(2) f(3)] by (rule same_below_trans)
      moreover have "brk st \<le> brk st'" using f(3) r(3) by simp
      moreover have "analyze_loop_st slack manifest (hash # hashes) report st = Some (report', st')"
        using False nt f(1) cst r(1) by (simp add: Let_def)
      moreover have "analyze_loop (manifest_in st manifest) (hash # hashes) (report_in st report)
          = analyze_loop (manifest_in st manifest) hashes (report_in st1 ?report1)"
        using False nt len lff cl f(5) in1 by (simp add: Let_def)
      ultimately show ?thesis
        using r(4) r(5) m1(2) by simp
    qed
  qed
qed

lemma report_ok_empty: "report_ok st empty_report"
  by (simp add: report_ok_def)

lemma report_in_empty: "report_in st empty_report = empty_report"
  by (simp add: report_in_def)

text \<open>
  The analyzer on backing arrays and the analyzer on lists agree: read in the final
  store, the report of the first holds the groups of the report of the second, each
  as often, and the totals are equal.
\<close>

lemma analyzeDuplicates_st_agrees:
  assumes "manifest_ok st manifest"
    and "permutes_slices sort_st" "permutes_slices sort_Slice"
  shows "\<exists>report st'.
      analyzeDuplicates_st sort_st slack hashes manifest st = Some (report, st')
    \<and> mset (Duplications (report_in st' report))
        = mset (Duplications (analyzeDuplicates sort_Slice hashes (manifest_in st manifest)))
    \<and> TotalDuplicateCount report
        = TotalDuplicateCount (analyzeDuplicates sort_Slice hashes (manifest_in st manifest))
    \<and> TotalDuplicateSize report
        = TotalDuplicateSize (analyzeDuplicates sort_Slice hashes (manifest_in st manifest))"
proof -
  from analyze_loop_st_frame [OF assms(1) report_ok_empty, of slack hashes]
  obtain report1 st' where r:
    "analyze_loop_st slack manifest hashes empty_report st = Some (report1, st')"
    "report_in st' report1 = analyze_loop (manifest_in st manifest) hashes empty_report"
    by (auto simp: report_in_empty)
  let ?report = "report1 \<lparr> Duplications := sort_st size_geq (Duplications report1) \<rparr>"
  have a: "analyzeDuplicates_st sort_st slack hashes manifest st = Some (?report, st')"
    using r(1) by (simp add: analyzeDuplicates_st_def)
  have "mset (Duplications (report_in st' ?report))
      = image_mset (duplication_in st') (mset (sort_st size_geq (Duplications report1)))"
    by (simp add: report_in_def)
  also have "\<dots> = image_mset (duplication_in st') (mset (Duplications report1))"
    using assms(2) by (simp add: permutes_slices_def)
  also have "\<dots> = mset (Duplications (report_in st' report1))"
    by (simp add: report_in_def)
  also have "\<dots> = mset (Duplications (analyzeDuplicates sort_Slice hashes (manifest_in st manifest)))"
    using assms(3) by (simp add: r(2) analyzeDuplicates_def permutes_slices_def Let_def)
  finally have b: "mset (Duplications (report_in st' ?report))
      = mset (Duplications (analyzeDuplicates sort_Slice hashes (manifest_in st manifest)))" .
  have c: "TotalDuplicateCount ?report
        = TotalDuplicateCount (analyzeDuplicates sort_Slice hashes (manifest_in st manifest))"
    "TotalDuplicateSize ?report
        = TotalDuplicateSize (analyzeDuplicates sort_Slice hashes (manifest_in st manifest))"
    using r(2) [symmetric] by (simp_all add: report_in_def analyzeDuplicates_def Let_def)
  from a b c show ?thesis by blast
qed

section \<open>The examples, evaluated\<close>

lemmas example_defs =
  file_a_def file_b_def file_c_def file_d_def file_e_def file_max_def
  manifest_one_group_def manifest_two_groups_def manifest_max_def

lemmas run_defs =
  analyzeDuplicates_def bucket_def filterDuplicateFiles_def
  ignoreFile_def insertionSort_def uint64_of_int64_def size_geq_def word_sless_alt

lemma report_one_group:
  "analyzeDuplicates insertionSort [''h1'', ''h2''] manifest_one_group
   = \<lparr> Duplications =
         [\<lparr> GroupHash = ''h1'', Files = [file_a, file_b],
            DuplicateCount = 1, DuplicateSize = 2000 \<rparr>],
       TotalDuplicateCount = 1, TotalDuplicateSize = 2000 \<rparr>"
  by (simp add: run_defs example_defs)

lemma report_two_groups:
  "analyzeDuplicates insertionSort [''h1'', ''h3''] manifest_two_groups
   = \<lparr> Duplications =
         [\<lparr> GroupHash = ''h3'', Files = [file_d, file_e],
            DuplicateCount = 1, DuplicateSize = 5000 \<rparr>,
          \<lparr> GroupHash = ''h1'', Files = [file_a, file_b],
            DuplicateCount = 1, DuplicateSize = 2000 \<rparr>],
       TotalDuplicateCount = 2, TotalDuplicateSize = 7000 \<rparr>"
  by (simp add: run_defs example_defs)

lemma report_two_groups_other_order:
  "analyzeDuplicates insertionSort [''h3'', ''h1''] manifest_two_groups
   = \<lparr> Duplications =
         [\<lparr> GroupHash = ''h3'', Files = [file_d, file_e],
            DuplicateCount = 1, DuplicateSize = 5000 \<rparr>,
          \<lparr> GroupHash = ''h1'', Files = [file_a, file_b],
            DuplicateCount = 1, DuplicateSize = 2000 \<rparr>],
       TotalDuplicateCount = 2, TotalDuplicateSize = 7000 \<rparr>"
  by (simp add: run_defs example_defs)

lemma report_with_negative:
  "analyzeDuplicates insertionSort [''h1''] manifest_with_negative
   = \<lparr> Duplications =
         [\<lparr> GroupHash = ''h1'', Files = [file_a, file_b],
            DuplicateCount = 1, DuplicateSize = 2000 \<rparr>],
       TotalDuplicateCount = 1, TotalDuplicateSize = 2000 \<rparr>"
  by (simp add: run_defs example_defs file_n_def manifest_with_negative_def)

lemma report_max:
  "analyzeDuplicates insertionSort [''h''] manifest_max
   = \<lparr> Duplications =
         [\<lparr> GroupHash = ''h'',
            Files = [file_max ''m1'', file_max ''m2'', file_max ''m3'', file_max ''m4''],
            DuplicateCount = 3, DuplicateSize = 0x7FFFFFFFFFFFFFFD \<rparr>],
       TotalDuplicateCount = 3, TotalDuplicateSize = 0x7FFFFFFFFFFFFFFD \<rparr>"
  by (simp add: run_defs example_defs)

lemma report_wrap:
  "analyzeDuplicates insertionSort [''h''] manifest_wrap
   = \<lparr> Duplications =
         [\<lparr> GroupHash = ''h'',
            Files = [file_small ''s1'', file_max ''m1'', file_max ''m2'', file_small ''s2''],
            DuplicateCount = 3, DuplicateSize = 998 \<rparr>],
       TotalDuplicateCount = 3, TotalDuplicateSize = 998 \<rparr>"
  by (simp add: run_defs example_defs file_small_def manifest_wrap_def)

lemma report_two_max:
  "analyzeDuplicates insertionSort [''h'', ''g''] manifest_two_max
   = \<lparr> Duplications =
         [\<lparr> GroupHash = ''g'',
            Files = [file_max_g ''n1'', file_max_g ''n2'', file_max_g ''n3''],
            DuplicateCount = 2, DuplicateSize = 0xFFFFFFFFFFFFFFFE \<rparr>,
          \<lparr> GroupHash = ''h'',
            Files = [file_max ''m1'', file_max ''m2'', file_max ''m3''],
            DuplicateCount = 2, DuplicateSize = 0xFFFFFFFFFFFFFFFE \<rparr>],
       TotalDuplicateCount = 4, TotalDuplicateSize = 0xFFFFFFFFFFFFFFFC \<rparr>"
  by (simp add: run_defs example_defs file_max_g_def manifest_two_max_def)

lemma manifest_ok_ex: "manifest_ok store_ex manifest_st_ex"
  by (auto simp: manifest_ok_def store_ex_def manifest_st_ex_def split: if_splits)

lemma run_store_ex:
  "map_option fst
     (analyzeDuplicates_st insertionSort (\<lambda>n. n) [''h1'', ''h2''] manifest_st_ex store_ex)
   = Some \<lparr> Duplications =
              [\<lparr> GroupHash = ''h1'', Files = Slice 3 2,
                 DuplicateCount = 1, DuplicateSize = 2000 \<rparr>],
            TotalDuplicateCount = 1, TotalDuplicateSize = 2000 \<rparr>"
  by (simp add: analyzeDuplicates_st_def bucket_st_def filterDuplicateFiles_st_def
      manifest_st_ex_def store_ex_def insertionSort_def size_geq_def new_array_def
      ignoreFile_def word_sless_alt uint64_of_int64_def file_a_def file_b_def file_c_def
      upt_rec Let_def)

section \<open>The claims\<close>

text \<open>
  C1, as the code has it: take a key that the loop visits and whose bucket keeps at least two files
  after filtering. The report holds a group for that key, and every group of the
  report for that key has as its files the bucket's records that the filter does
  not reject, in the bucket's order; its \<open>DuplicateCount\<close> is the number of these
  files minus one; its \<open>DuplicateSize\<close> is the sum of the sizes of all of them but
  the first, modulo \<open>2 ^ 64\<close>: the sum as the \<open>uint64\<close> field holds it. It is
  that sum itself whenever the sum is below \<open>2 ^ 64\<close>.
\<close>

theorem C1_group_count_and_size:
  assumes "permutes_slices sort_Slice"
    and "hash \<in> set hashes"
    and "2 \<le> length (filterDuplicateFiles (bucket manifest hash))"
  shows "(\<exists>d \<in> set (Duplications (analyzeDuplicates sort_Slice hashes manifest)).
            GroupHash d = hash)
    \<and> (\<forall>d \<in> set (Duplications (analyzeDuplicates sort_Slice hashes manifest)).
          GroupHash d = hash \<longrightarrow>
            Files d = filterDuplicateFiles (bucket manifest hash)
          \<and> Files d = filter (\<lambda>f. \<not> ignoreFile f) (bucket manifest hash)
          \<and> DuplicateCount d = int (length (Files d)) - 1
          \<and> DuplicateSize d = sum_list (map (\<lambda>f. uint64_of_int64 (Size f)) (tl (Files d)))
          \<and> uint (DuplicateSize d) = (\<Sum>f\<leftarrow>tl (Files d). sint (Size f)) mod 2 ^ 64
          \<and> ((\<Sum>f\<leftarrow>tl (Files d). sint (Size f)) < 2 ^ 64 \<longrightarrow>
                uint (DuplicateSize d) = (\<Sum>f\<leftarrow>tl (Files d). sint (Size f))))"
proof -
  let ?ds = "Duplications (analyzeDuplicates sort_Slice hashes manifest)"
  have s: "set ?ds = set (groups manifest hashes)"
    using assms(1) by (simp add: analyzeDuplicates_eq set_sorted_groups)
  have "survives manifest hash"
    using assms(3) by (simp add: survives_def kept_eq)
  with assms(2) have "group_of manifest hash \<in> set ?ds"
    unfolding s in_groups_iff by blast
  then have ex: "\<exists>d \<in> set ?ds. GroupHash d = hash"
    using GroupHash_group_of by blast
  have "Files d = filterDuplicateFiles (bucket manifest hash)
          \<and> Files d = filter (\<lambda>f. \<not> ignoreFile f) (bucket manifest hash)
          \<and> DuplicateCount d = int (length (Files d)) - 1
          \<and> DuplicateSize d = sum_list (map (\<lambda>f. uint64_of_int64 (Size f)) (tl (Files d)))
          \<and> uint (DuplicateSize d) = (\<Sum>f\<leftarrow>tl (Files d). sint (Size f)) mod 2 ^ 64
          \<and> ((\<Sum>f\<leftarrow>tl (Files d). sint (Size f)) < 2 ^ 64 \<longrightarrow>
                uint (DuplicateSize d) = (\<Sum>f\<leftarrow>tl (Files d). sint (Size f)))"
    if "d \<in> set ?ds" "GroupHash d = hash" for d
  proof -
    have d: "d = group_of manifest hash"
      using that unfolding s in_groups_iff by (auto simp: GroupHash_group_of)
    have F: "Files d = kept manifest hash" by (simp add: d group_of_def)
    have "(\<Sum>f\<leftarrow>tl (Files d). sint (Size f)) < 2 ^ 64 \<longrightarrow>
                uint (DuplicateSize d) = (\<Sum>f\<leftarrow>tl (Files d). sint (Size f))"
      unfolding F by (simp add: d uint_group_size_exact)
    moreover have "uint (DuplicateSize d) = (\<Sum>f\<leftarrow>tl (Files d). sint (Size f)) mod 2 ^ 64"
      unfolding F by (simp add: d uint_group_size)
    moreover have "Files d = filterDuplicateFiles (bucket manifest hash)
          \<and> Files d = filter (\<lambda>f. \<not> ignoreFile f) (bucket manifest hash)
          \<and> DuplicateCount d = int (length (Files d)) - 1
          \<and> DuplicateSize d = sum_list (map (\<lambda>f. uint64_of_int64 (Size f)) (tl (Files d)))"
      by (simp add: d group_of_def kept_def filterDuplicateFiles_eq)
    ultimately show ?thesis by blast
  qed
  with ex show ?thesis by blast
qed

theorem C1_group_count_and_size_witness:
  "permutes_slices (insertionSort :: File list Duplication slice_sorter)
   \<and> ''h1'' \<in> set [''h1'', ''h2'']
   \<and> 2 \<le> length (filterDuplicateFiles (bucket manifest_one_group ''h1''))
   \<and> (\<exists>d \<in> set (Duplications
                  (analyzeDuplicates insertionSort [''h1'', ''h2''] manifest_one_group)).
         GroupHash d = ''h1'' \<and> Files d = [file_a, file_b]
       \<and> DuplicateCount d = 1 \<and> DuplicateSize d = 2000
       \<and> sum_list (map (sint \<circ> Size) (tl (Files d))) < 2 ^ 64
       \<and> uint (DuplicateSize d) = sum_list (map (sint \<circ> Size) (tl (Files d))))"
proof -
  let ?ds = "Duplications (analyzeDuplicates insertionSort [''h1'', ''h2''] manifest_one_group)"
  have h1: "permutes_slices (insertionSort :: File list Duplication slice_sorter)"
    by (rule permutes_insertionSort)
  have h2: "''h1'' \<in> set [''h1'', ''h2'']" by simp
  have h3: "2 \<le> length (filterDuplicateFiles (bucket manifest_one_group ''h1''))"
    by (simp add: run_defs example_defs)
  from C1_group_count_and_size [OF h1 h2 h3]
  obtain d where d: "d \<in> set ?ds" "GroupHash d = ''h1''"
      "Files d = filter (\<lambda>f. \<not> ignoreFile f) (bucket manifest_one_group ''h1'')"
      "DuplicateCount d = int (length (Files d)) - 1"
      "DuplicateSize d = sum_list (map (\<lambda>f. uint64_of_int64 (Size f)) (tl (Files d)))"
      "(\<Sum>f\<leftarrow>tl (Files d). sint (Size f)) < 2 ^ 64 \<longrightarrow>
         uint (DuplicateSize d) = (\<Sum>f\<leftarrow>tl (Files d). sint (Size f))"
    by blast
  have f: "Files d = [file_a, file_b]"
    using d(3) by (simp add: run_defs example_defs)
  have c: "DuplicateCount d = 1" using d(4) by (simp add: f)
  have z: "DuplicateSize d = 2000"
    using d(5) by (simp add: f file_b_def uint64_of_int64_def)
  have b: "sum_list (map (sint \<circ> Size) (tl (Files d))) < 2 ^ 64"
    by (simp add: f file_b_def)
  from d(6) b have e: "uint (DuplicateSize d) = sum_list (map (sint \<circ> Size) (tl (Files d)))"
    by (simp add: comp_def)
  from h1 h2 h3 d(1) d(2) f c z b e show ?thesis by blast
qed

text \<open>
  The sum is not always below \<open>2 ^ 64\<close>. In the bucket of \<open>manifest_wrap\<close> all four
  files pass the filter; the three counted sizes are \<open>2 ^ 63 - 1\<close>, \<open>2 ^ 63 - 1\<close>
  and 1000, which add up to \<open>2 ^ 64 + 998\<close>, and \<open>DuplicateSize\<close> is 998.
\<close>

theorem C1_size_sum_counterexample:
  "2 \<le> length (filterDuplicateFiles (bucket manifest_wrap ''h''))
   \<and> Duplications (analyzeDuplicates insertionSort [''h''] manifest_wrap)
     = [\<lparr> GroupHash = ''h'',
          Files = [file_small ''s1'', file_max ''m1'', file_max ''m2'', file_small ''s2''],
          DuplicateCount = 3, DuplicateSize = 998 \<rparr>]
   \<and> map (sint \<circ> Size) (tl (Files (hd (Duplications
         (analyzeDuplicates insertionSort [''h''] manifest_wrap)))))
     = [9223372036854775807, 9223372036854775807, 1000]
   \<and> sum_list (map (sint \<circ> Size) (tl (Files (hd (Duplications
         (analyzeDuplicates insertionSort [''h''] manifest_wrap))))))
     = 18446744073709552614
   \<and> uint (DuplicateSize (hd (Duplications
         (analyzeDuplicates insertionSort [''h''] manifest_wrap))))
     = 998
   \<and> uint (DuplicateSize (hd (Duplications
         (analyzeDuplicates insertionSort [''h''] manifest_wrap))))
     \<noteq> sum_list (map (sint \<circ> Size) (tl (Files (hd (Duplications
         (analyzeDuplicates insertionSort [''h''] manifest_wrap))))))"
proof -
  have "2 \<le> length (filterDuplicateFiles (bucket manifest_wrap ''h''))"
    by (simp add: run_defs example_defs file_small_def manifest_wrap_def)
  then show ?thesis
    by (simp add: report_wrap) (simp add: file_max_def file_small_def)
qed

text \<open>
  C2, as the code has it: in the report of every manifest, \<open>TotalDuplicateCount\<close>
  is the sum of the \<open>DuplicateCount\<close> of its groups, and \<open>TotalDuplicateSize\<close> is
  the sum of their \<open>DuplicateSize\<close> modulo \<open>2 ^ 64\<close>: the sum as the \<open>uint64\<close>
  field holds it. It is that sum itself whenever the sum is below \<open>2 ^ 64\<close>.
\<close>

theorem C2_totals_are_sums:
  assumes "permutes_slices sort_Slice"
  shows "TotalDuplicateCount (analyzeDuplicates sort_Slice hashes manifest)
       = sum_list (map DuplicateCount
           (Duplications (analyzeDuplicates sort_Slice hashes manifest)))
    \<and> TotalDuplicateSize (analyzeDuplicates sort_Slice hashes manifest)
       = sum_list (map DuplicateSize
           (Duplications (analyzeDuplicates sort_Slice hashes manifest)))
    \<and> uint (TotalDuplicateSize (analyzeDuplicates sort_Slice hashes manifest))
        = (\<Sum>d\<leftarrow>Duplications (analyzeDuplicates sort_Slice hashes manifest).
             uint (DuplicateSize d)) mod 2 ^ 64
    \<and> ((\<Sum>d\<leftarrow>Duplications (analyzeDuplicates sort_Slice hashes manifest).
           uint (DuplicateSize d)) < 2 ^ 64 \<longrightarrow>
        uint (TotalDuplicateSize (analyzeDuplicates sort_Slice hashes manifest))
        = (\<Sum>d\<leftarrow>Duplications (analyzeDuplicates sort_Slice hashes manifest).
             uint (DuplicateSize d)))"
proof -
  let ?r = "analyzeDuplicates sort_Slice hashes manifest"
  have t: "TotalDuplicateSize ?r = sum_list (map DuplicateSize (Duplications ?r))"
    by (simp add: analyzeDuplicates_eq sum_list_sorted [OF assms])
  have c: "TotalDuplicateCount ?r = sum_list (map DuplicateCount (Duplications ?r))"
    by (simp add: analyzeDuplicates_eq sum_list_sorted [OF assms])
  have m: "uint (TotalDuplicateSize ?r)
      = (\<Sum>d\<leftarrow>Duplications ?r. uint (DuplicateSize d)) mod 2 ^ 64"
    using uint_sum_list [of "map DuplicateSize (Duplications ?r)"]
    by (simp add: t comp_def)
  have "uint (TotalDuplicateSize ?r) = (\<Sum>d\<leftarrow>Duplications ?r. uint (DuplicateSize d))"
    if "(\<Sum>d\<leftarrow>Duplications ?r. uint (DuplicateSize d)) < 2 ^ 64"
    using that uint_sum_list_exact [of "map DuplicateSize (Duplications ?r)"]
    by (simp add: t comp_def)
  with t c m show ?thesis by blast
qed

theorem C2_totals_are_sums_witness:
  "permutes_slices (insertionSort :: File list Duplication slice_sorter)
   \<and> sum_list (map (uint \<circ> DuplicateSize)
         (Duplications (analyzeDuplicates insertionSort [''h1'', ''h3''] manifest_two_groups)))
       < 2 ^ 64
   \<and> TotalDuplicateCount (analyzeDuplicates insertionSort [''h1'', ''h3''] manifest_two_groups)
       = sum_list (map DuplicateCount
           (Duplications (analyzeDuplicates insertionSort [''h1'', ''h3''] manifest_two_groups)))
   \<and> TotalDuplicateSize (analyzeDuplicates insertionSort [''h1'', ''h3''] manifest_two_groups)
       = sum_list (map DuplicateSize
           (Duplications (analyzeDuplicates insertionSort [''h1'', ''h3''] manifest_two_groups)))
   \<and> uint (TotalDuplicateSize
         (analyzeDuplicates insertionSort [''h1'', ''h3''] manifest_two_groups))
       = sum_list (map (uint \<circ> DuplicateSize)
           (Duplications (analyzeDuplicates insertionSort [''h1'', ''h3''] manifest_two_groups)))
   \<and> TotalDuplicateCount (analyzeDuplicates insertionSort [''h1'', ''h3''] manifest_two_groups) = 2
   \<and> TotalDuplicateSize (analyzeDuplicates insertionSort [''h1'', ''h3''] manifest_two_groups) = 7000"
proof -
  let ?r = "analyzeDuplicates insertionSort [''h1'', ''h3''] manifest_two_groups"
  have h: "permutes_slices (insertionSort :: File list Duplication slice_sorter)"
    by (rule permutes_insertionSort)
  have b: "sum_list (map (uint \<circ> DuplicateSize) (Duplications ?r)) < 2 ^ 64"
    by (simp add: report_two_groups)
  from C2_totals_are_sums [OF h, of "[''h1'', ''h3'']" manifest_two_groups]
  have t: "TotalDuplicateCount ?r = sum_list (map DuplicateCount (Duplications ?r))"
      "TotalDuplicateSize ?r = sum_list (map DuplicateSize (Duplications ?r))"
      "(\<Sum>d\<leftarrow>Duplications ?r. uint (DuplicateSize d)) < 2 ^ 64 \<longrightarrow>
        uint (TotalDuplicateSize ?r) = (\<Sum>d\<leftarrow>Duplications ?r. uint (DuplicateSize d))"
    by blast+
  from t(3) b have e: "uint (TotalDuplicateSize ?r)
      = sum_list (map (uint \<circ> DuplicateSize) (Duplications ?r))"
    by (simp add: comp_def)
  have v: "TotalDuplicateCount ?r = 2" "TotalDuplicateSize ?r = 7000"
    by (simp_all add: report_two_groups)
  from h b t(1) t(2) e v show ?thesis by blast
qed

text \<open>
  The sum is not always below \<open>2 ^ 64\<close>. In \<open>manifest_two_max\<close> each of the two
  groups has the \<open>DuplicateSize\<close> \<open>2 ^ 64 - 2\<close>, the sum of two sizes
  \<open>2 ^ 63 - 1\<close>; the two add up to \<open>2 ^ 65 - 4\<close>, and \<open>TotalDuplicateSize\<close> is
  \<open>2 ^ 64 - 4\<close>.
\<close>

theorem C2_total_size_counterexample:
  "map DuplicateSize (Duplications
       (analyzeDuplicates insertionSort [''h'', ''g''] manifest_two_max))
     = [0xFFFFFFFFFFFFFFFE, 0xFFFFFFFFFFFFFFFE]
   \<and> map (uint \<circ> DuplicateSize) (Duplications
       (analyzeDuplicates insertionSort [''h'', ''g''] manifest_two_max))
     = [18446744073709551614, 18446744073709551614]
   \<and> sum_list (map (uint \<circ> DuplicateSize) (Duplications
       (analyzeDuplicates insertionSort [''h'', ''g''] manifest_two_max)))
     = 36893488147419103228
   \<and> uint (TotalDuplicateSize
       (analyzeDuplicates insertionSort [''h'', ''g''] manifest_two_max))
     = 18446744073709551612
   \<and> uint (TotalDuplicateSize
       (analyzeDuplicates insertionSort [''h'', ''g''] manifest_two_max))
     \<noteq> sum_list (map (uint \<circ> DuplicateSize) (Duplications
       (analyzeDuplicates insertionSort [''h'', ''g''] manifest_two_max)))"
  by (simp add: report_two_max)

text \<open>
  C3: the groups of the report are in descending order of \<open>DuplicateSize\<close>: at every
  pair of adjacent indices the size at the first is at least the size at the second.
\<close>

theorem C3_sorted_descending:
  assumes "orders_slices sort_Slice"
  shows "\<forall>i. i + 1 < length (Duplications (analyzeDuplicates sort_Slice hashes manifest)) \<longrightarrow>
       DuplicateSize (Duplications (analyzeDuplicates sort_Slice hashes manifest) ! i)
     \<ge> DuplicateSize (Duplications (analyzeDuplicates sort_Slice hashes manifest) ! (i + 1))"
proof -
  let ?ds = "Duplications (analyzeDuplicates sort_Slice hashes manifest)"
  have "sorted_wrt size_geq ?ds"
    using sorted_by_size [OF assms] by (simp add: analyzeDuplicates_eq)
  then show ?thesis
    by (auto simp: sorted_wrt_iff_nth_less size_geq_def)
qed

theorem C3_sorted_descending_witness:
  "orders_slices (insertionSort :: File list Duplication slice_sorter)
   \<and> 0 + 1 < length (Duplications
         (analyzeDuplicates insertionSort [''h1'', ''h3''] manifest_two_groups))
   \<and> DuplicateSize (Duplications
         (analyzeDuplicates insertionSort [''h1'', ''h3''] manifest_two_groups) ! 0)
     \<ge> DuplicateSize (Duplications
         (analyzeDuplicates insertionSort [''h1'', ''h3''] manifest_two_groups) ! (0 + 1))
   \<and> map GroupHash (Duplications
         (analyzeDuplicates insertionSort [''h1'', ''h3''] manifest_two_groups))
     = [''h3'', ''h1'']"
proof -
  have h: "orders_slices (insertionSort :: File list Duplication slice_sorter)"
    by (rule orders_insertionSort)
  have l: "0 + 1 < length (Duplications
         (analyzeDuplicates insertionSort [''h1'', ''h3''] manifest_two_groups))"
    by (simp add: report_two_groups)
  from C3_sorted_descending [OF h, of "[''h1'', ''h3'']" manifest_two_groups] l
  have "DuplicateSize (Duplications
         (analyzeDuplicates insertionSort [''h1'', ''h3''] manifest_two_groups) ! 0)
     \<ge> DuplicateSize (Duplications
         (analyzeDuplicates insertionSort [''h1'', ''h3''] manifest_two_groups) ! (0 + 1))"
    by blast
  with h l show ?thesis by (simp add: report_two_groups)
qed

text \<open>
  C4: \<open>ignoreFile f\<close> holds exactly when the (signed) size of \<open>f\<close> is below 1000; a
  file of size 999 is ignored and one of size 1000 is not; the answer is a function
  of the size of this one record, whatever its path and content hash.
\<close>

theorem C4_ignoreFile_threshold:
  "(ignoreFile f \<longleftrightarrow> sint (Size f) < 1000)
   \<and> ignoreFile (f \<lparr> Size := 999 \<rparr>)
   \<and> \<not> ignoreFile (f \<lparr> Size := 1000 \<rparr>)
   \<and> ignoreFile (f \<lparr> Path := p, ContentHash := h \<rparr>) = ignoreFile f"
  by (simp add: ignoreFile_def word_sless_alt)

text \<open>
  C5: a bucket that holds at most one record, or keeps fewer than two after
  filtering, has no group in the report, and the totals are those of the manifest
  without that bucket.
\<close>

theorem C5_small_buckets_dropped:
  assumes "permutes_slices sort_Slice"
    and "length (bucket manifest hash) \<le> 1
       \<or> length (filterDuplicateFiles (bucket manifest hash)) < 2"
  shows "hash \<notin> set (map GroupHash (Duplications (analyzeDuplicates sort_Slice hashes manifest)))
     \<and> TotalDuplicateCount (analyzeDuplicates sort_Slice hashes manifest)
       = TotalDuplicateCount
           (analyzeDuplicates sort_Slice (removeAll hash hashes) (manifest(hash := None)))
     \<and> TotalDuplicateSize (analyzeDuplicates sort_Slice hashes manifest)
       = TotalDuplicateSize
           (analyzeDuplicates sort_Slice (removeAll hash hashes) (manifest(hash := None)))"
proof -
  have ns: "\<not> survives manifest hash"
    using assms(2) survives_bucket [of manifest hash] by (auto simp: survives_def kept_eq)
  have "set (Duplications (analyzeDuplicates sort_Slice hashes manifest))
      = set (groups manifest hashes)"
    using assms(1) by (simp add: analyzeDuplicates_eq set_sorted_groups)
  then have "hash \<notin> set (map GroupHash (Duplications (analyzeDuplicates sort_Slice hashes manifest)))"
    using ns by (auto simp: in_groups_iff GroupHash_group_of)
  then show ?thesis
    by (simp add: analyzeDuplicates_eq groups_remove [OF ns])
qed

theorem C5_small_buckets_dropped_witness:
  "permutes_slices (insertionSort :: File list Duplication slice_sorter)
   \<and> length (filterDuplicateFiles (bucket manifest_one_group ''h2'')) < 2
   \<and> ''h2'' \<notin> set (map GroupHash (Duplications
         (analyzeDuplicates insertionSort [''h1'', ''h2''] manifest_one_group)))
   \<and> TotalDuplicateCount (analyzeDuplicates insertionSort [''h1'', ''h2''] manifest_one_group)
       = TotalDuplicateCount (analyzeDuplicates insertionSort
           (removeAll ''h2'' [''h1'', ''h2'']) (manifest_one_group(''h2'' := None)))
   \<and> TotalDuplicateSize (analyzeDuplicates insertionSort [''h1'', ''h2''] manifest_one_group)
       = TotalDuplicateSize (analyzeDuplicates insertionSort
           (removeAll ''h2'' [''h1'', ''h2'']) (manifest_one_group(''h2'' := None)))"
proof -
  have h1: "permutes_slices (insertionSort :: File list Duplication slice_sorter)"
    by (rule permutes_insertionSort)
  have h2: "length (filterDuplicateFiles (bucket manifest_one_group ''h2'')) < 2"
    by (simp add: run_defs example_defs)
  from h2 have h2': "length (bucket manifest_one_group ''h2'') \<le> 1
       \<or> length (filterDuplicateFiles (bucket manifest_one_group ''h2'')) < 2" ..
  show ?thesis
    using C5_small_buckets_dropped [OF h1 h2', of "[''h1'', ''h2'']"] h1 h2
    by blast
qed

text \<open>
  C6: when the listing fails, \<open>getGoogleDriveManifest\<close> hands the error back
  together with the empty manifest, whatever files the listing returned beside the
  error, and \<open>main\<close> panics with that error. When \<open>main\<close> ends with a report, the
  listing gave no error, and the report is the analysis of the manifest of the scan.
\<close>

theorem C6_scan_error_is_fatal:
  "(snd listing_Files = Some e \<longrightarrow>
      getGoogleDriveManifest listing_Files = (Map.empty, Some e)
    \<and> main sort_Slice range_keys None None listing_Files = Panic e)
   \<and> (main sort_Slice range_keys homedir_Dir flags_Parse listing_Files = Report r \<longrightarrow>
      snd listing_Files = None
    \<and> snd (getGoogleDriveManifest listing_Files) = None
    \<and> r = analyzeDuplicates sort_Slice
            (range_keys (fst (getGoogleDriveManifest listing_Files)))
            (fst (getGoogleDriveManifest listing_Files)))"
proof -
  obtain files err where l: "listing_Files = (files, err)"
    by (cases listing_Files)
  show ?thesis
  proof (cases err)
    case None
    then show ?thesis
      by (auto simp: l getGoogleDriveManifest_ok main_def split: option.splits)
  next
    case (Some e')
    then show ?thesis
      by (auto simp: l getGoogleDriveManifest_error main_def split: option.splits)
  qed
qed

theorem C6_scan_error_is_fatal_witness:
  "snd ([file_a, file_b], Some ''quota exceeded'') = Some ''quota exceeded''
   \<and> getGoogleDriveManifest ([file_a, file_b], Some ''quota exceeded'')
       = (Map.empty, Some ''quota exceeded'')
   \<and> main insertionSort (\<lambda>m. [''h1'']) None None ([file_a, file_b], Some ''quota exceeded'')
       = Panic ''quota exceeded''
   \<and> main insertionSort (\<lambda>m. [''h1'']) None None ([file_a, file_b], None :: string option)
       = Report (analyzeDuplicates insertionSort [''h1'']
           (fst (getGoogleDriveManifest ([file_a, file_b], None :: string option))))
   \<and> snd (getGoogleDriveManifest ([file_a, file_b], None :: string option)) = None"
proof -
  have a: "snd ([file_a, file_b], Some ''quota exceeded'') = Some ''quota exceeded''"
    by simp
  have b: "main insertionSort (\<lambda>m. [''h1'']) None None ([file_a, file_b], None :: string option)
       = Report (analyzeDuplicates insertionSort [''h1'']
           (fst (getGoogleDriveManifest ([file_a, file_b], None :: string option))))"
    by (simp add: main_def getGoogleDriveManifest_ok)
  show ?thesis
    using C6_scan_error_is_fatal [of "([file_a, file_b], Some ''quota exceeded'')"
        "''quota exceeded''" insertionSort "\<lambda>m. [''h1'']" None None
        "analyzeDuplicates insertionSort [''h1'']
           (fst (getGoogleDriveManifest ([file_a, file_b], None :: string option)))"]
      C6_scan_error_is_fatal [of "([file_a, file_b], None :: string option)"
        "''quota exceeded''" insertionSort "\<lambda>m. [''h1'']" None None
        "analyzeDuplicates insertionSort [''h1'']
           (fst (getGoogleDriveManifest ([file_a, file_b], None :: string option)))"]
      a b
    by simp
qed

text \<open>
  C7: let two runs analyze the same manifest, each with its own order of visit of
  the keys and its own sorting routine. The two reports hold the same groups, each
  as often (with the same files, counts and sizes), the sizes stand in the same
  sequence, and the totals agree. The reports can differ only in the order of
  groups of equal \<open>DuplicateSize\<close>.
\<close>

theorem C7_deterministic_content:
  assumes "permutes_slices sort1" "orders_slices sort1"
    and "permutes_slices sort2" "orders_slices sort2"
    and "range_order manifest hashes1" "range_order manifest hashes2"
  shows "mset (Duplications (analyzeDuplicates sort1 hashes1 manifest))
       = mset (Duplications (analyzeDuplicates sort2 hashes2 manifest))
     \<and> map DuplicateSize (Duplications (analyzeDuplicates sort1 hashes1 manifest))
       = map DuplicateSize (Duplications (analyzeDuplicates sort2 hashes2 manifest))
     \<and> TotalDuplicateCount (analyzeDuplicates sort1 hashes1 manifest)
       = TotalDuplicateCount (analyzeDuplicates sort2 hashes2 manifest)
     \<and> TotalDuplicateSize (analyzeDuplicates sort1 hashes1 manifest)
       = TotalDuplicateSize (analyzeDuplicates sort2 hashes2 manifest)"
proof -
  let ?g1 = "groups manifest hashes1" and ?g2 = "groups manifest hashes2"
  have "mset hashes1 = mset hashes2"
    using assms(5,6) by (simp add: range_order_def set_eq_iff_mset_eq_distinct [symmetric])
  then have g: "mset ?g1 = mset ?g2" by (rule mset_groups)
  have m: "mset (sort1 size_geq ?g1) = mset (sort2 size_geq ?g2)"
    using assms(1,3) g by (simp add: permutes_slices_def)
  have "sorted_wrt (\<ge>) (map DuplicateSize (sort1 size_geq ?g1))"
       "sorted_wrt (\<ge>) (map DuplicateSize (sort2 size_geq ?g2))"
    using sorted_by_size [OF assms(2)] sorted_by_size [OF assms(4)]
    by (simp_all add: sorted_wrt_map size_geq_fun)
  moreover have "mset (map DuplicateSize (sort1 size_geq ?g1))
      = mset (map DuplicateSize (sort2 size_geq ?g2))"
    using m by (metis mset_map)
  ultimately have sz: "map DuplicateSize (sort1 size_geq ?g1)
      = map DuplicateSize (sort2 size_geq ?g2)"
    by (rule descending_unique)
  have c: "sum_list (map DuplicateCount ?g1) = sum_list (map DuplicateCount ?g2)"
    using g by (metis mset_map sum_mset_sum_list)
  have t: "sum_list (map DuplicateSize ?g1) = sum_list (map DuplicateSize ?g2)"
    using g by (metis mset_map sum_mset_sum_list)
  show ?thesis
    by (simp add: analyzeDuplicates_eq m sz c t)
qed

theorem C7_deterministic_content_witness:
  "range_order manifest_two_groups [''h1'', ''h3'']
   \<and> range_order manifest_two_groups [''h3'', ''h1'']
   \<and> mset (Duplications (analyzeDuplicates insertionSort [''h1'', ''h3''] manifest_two_groups))
       = mset (Duplications (analyzeDuplicates insertionSort [''h3'', ''h1''] manifest_two_groups))
   \<and> map DuplicateSize
         (Duplications (analyzeDuplicates insertionSort [''h1'', ''h3''] manifest_two_groups))
       = map DuplicateSize
         (Duplications (analyzeDuplicates insertionSort [''h3'', ''h1''] manifest_two_groups))
   \<and> TotalDuplicateCount (analyzeDuplicates insertionSort [''h1'', ''h3''] manifest_two_groups)
       = TotalDuplicateCount (analyzeDuplicates insertionSort [''h3'', ''h1''] manifest_two_groups)
   \<and> TotalDuplicateSize (analyzeDuplicates insertionSort [''h1'', ''h3''] manifest_two_groups)
       = TotalDuplicateSize (analyzeDuplicates insertionSort [''h3'', ''h1''] manifest_two_groups)"
proof -
  have r1: "range_order manifest_two_groups [''h1'', ''h3'']"
    by (auto simp: range_order_def manifest_two_groups_def)
  have r2: "range_order manifest_two_groups [''h3'', ''h1'']"
    by (auto simp: range_order_def manifest_two_groups_def)
  show ?thesis
    using C7_deterministic_content [OF permutes_insertionSort orders_insertionSort
        permutes_insertionSort orders_insertionSort r1 r2] r1 r2
    by blast
qed

text \<open>
  C8: take a store and a manifest of slice headers that is sound in it. The analysis
  returns (it does not panic), no array that the store held before the call differs
  after it, and the manifest shows after the call what it showed before: the same
  keys, each with the same records in the same order. The map itself is an argument
  that the function only reads.
\<close>

theorem C8_manifest_not_mutated:
  assumes "manifest_ok st manifest"
  shows "\<exists>report st'.
      analyzeDuplicates_st sort_Slice slack hashes manifest st = Some (report, st')
    \<and> (\<forall>a. a < brk st \<longrightarrow> arrays st' a = arrays st a)
    \<and> manifest_in st' manifest = manifest_in st manifest
    \<and> dom (manifest_in st' manifest) = dom manifest"
proof -
  from analyze_loop_st_frame [OF assms report_ok_empty, of slack hashes]
  obtain report1 st' where r:
    "analyze_loop_st slack manifest hashes empty_report st = Some (report1, st')"
    "same_below (brk st) st st'" "brk st \<le> brk st'"
    by auto
  let ?report = "report1 \<lparr> Duplications := sort_Slice size_geq (Duplications report1) \<rparr>"
  have a: "analyzeDuplicates_st sort_Slice slack hashes manifest st = Some (?report, st')"
    using r(1) by (simp add: analyzeDuplicates_st_def)
  have b: "\<forall>a. a < brk st \<longrightarrow> arrays st' a = arrays st a"
    using r(2) by (simp add: same_below_def)
  have c: "manifest_in st' manifest = manifest_in st manifest"
    using manifest_ok_kept [OF assms r(2) r(3)] by simp
  have d: "dom (manifest_in st' manifest) = dom manifest"
    by (auto simp: manifest_in_def)
  from a b c d show ?thesis by blast
qed

theorem C8_manifest_not_mutated_witness:
  "manifest_ok store_ex manifest_st_ex
   \<and> (\<exists>report st'.
        analyzeDuplicates_st insertionSort (\<lambda>n. n) [''h1'', ''h2''] manifest_st_ex store_ex
          = Some (report, st')
      \<and> arrays st' 0 = arrays store_ex 0
      \<and> arrays st' 1 = arrays store_ex 1
      \<and> manifest_in st' manifest_st_ex = manifest_in store_ex manifest_st_ex)
   \<and> map_option fst
        (analyzeDuplicates_st insertionSort (\<lambda>n. n) [''h1'', ''h2''] manifest_st_ex store_ex)
      = Some \<lparr> Duplications =
                 [\<lparr> GroupHash = ''h1'', Files = Slice 3 2,
                    DuplicateCount = 1, DuplicateSize = 2000 \<rparr>],
               TotalDuplicateCount = 1, TotalDuplicateSize = 2000 \<rparr>"
proof -
  have ok: "manifest_ok store_ex manifest_st_ex"
    by (rule manifest_ok_ex)
  from C8_manifest_not_mutated [OF ok, of insertionSort "\<lambda>n. n" "[''h1'', ''h2'']"]
  obtain report st' where r:
    "analyzeDuplicates_st insertionSort (\<lambda>n. n) [''h1'', ''h2''] manifest_st_ex store_ex
       = Some (report, st')"
    "\<forall>a. a < brk store_ex \<longrightarrow> arrays st' a = arrays store_ex a"
    "manifest_in st' manifest_st_ex = manifest_in store_ex manifest_st_ex"
    by blast
  have "brk store_ex = 2" by (simp add: store_ex_def)
  with r(2) have "arrays st' 0 = arrays store_ex 0" "arrays st' 1 = arrays store_ex 1"
    by simp_all
  with ok r(1) r(3) run_store_ex show ?thesis by blast
qed

text \<open>
  C10, as the code has it: every file of a group has a size of at least 1000, so the
  conversion to \<open>uint64\<close> is applied to no negative value and keeps each size as it
  is; the \<open>DuplicateSize\<close> of a group is the sum of the sizes of its files but the
  first, modulo \<open>2 ^ 64\<close>, and it is that sum itself whenever the sum is below
  \<open>2 ^ 64\<close>.
\<close>

theorem C10_sizes_nonnegative_sum_mod:
  assumes "permutes_slices sort_Slice"
  shows "\<forall>d \<in> set (Duplications (analyzeDuplicates sort_Slice hashes manifest)).
      (\<forall>f \<in> set (Files d).
          1000 \<le> sint (Size f) \<and> uint (uint64_of_int64 (Size f)) = sint (Size f))
    \<and> uint (DuplicateSize d) = (\<Sum>f\<leftarrow>tl (Files d). sint (Size f)) mod 2 ^ 64
    \<and> ((\<Sum>f\<leftarrow>tl (Files d). sint (Size f)) < 2 ^ 64 \<longrightarrow>
          uint (DuplicateSize d) = (\<Sum>f\<leftarrow>tl (Files d). sint (Size f)))"
proof
  fix d
  assume "d \<in> set (Duplications (analyzeDuplicates sort_Slice hashes manifest))"
  then have "d \<in> set (groups manifest hashes)"
    using assms by (simp add: analyzeDuplicates_eq set_sorted_groups)
  then obtain hash where d: "d = group_of manifest hash"
    by (auto simp: in_groups_iff)
  have F: "Files d = kept manifest hash" by (simp add: d group_of_def)
  have a: "\<forall>f \<in> set (Files d).
      1000 \<le> sint (Size f) \<and> uint (uint64_of_int64 (Size f)) = sint (Size f)"
    by (simp add: F kept_sizes kept_uint)
  have b: "uint (DuplicateSize d) = (\<Sum>f\<leftarrow>tl (Files d). sint (Size f)) mod 2 ^ 64"
    by (simp add: F) (simp add: d uint_group_size)
  have nn: "0 \<le> (\<Sum>f\<leftarrow>tl (Files d). sint (Size f))"
  proof (rule sum_list_nonneg)
    fix x assume "x \<in> set (map (\<lambda>f. sint (Size f)) (tl (Files d)))"
    then obtain f where "f \<in> set (tl (Files d))" "x = sint (Size f)" by auto
    with a in_set_tl [of f "Files d"] show "0 \<le> x" by fastforce
  qed
  show "(\<forall>f \<in> set (Files d).
          1000 \<le> sint (Size f) \<and> uint (uint64_of_int64 (Size f)) = sint (Size f))
    \<and> uint (DuplicateSize d) = (\<Sum>f\<leftarrow>tl (Files d). sint (Size f)) mod 2 ^ 64
    \<and> ((\<Sum>f\<leftarrow>tl (Files d). sint (Size f)) < 2 ^ 64 \<longrightarrow>
          uint (DuplicateSize d) = (\<Sum>f\<leftarrow>tl (Files d). sint (Size f)))"
    using a b nn by simp
qed

theorem C10_sizes_nonnegative_sum_mod_witness:
  "permutes_slices (insertionSort :: File list Duplication slice_sorter)
   \<and> sint (Size (hd (bucket manifest_with_negative ''h1''))) = - 5
   \<and> hd (Duplications (analyzeDuplicates insertionSort [''h1''] manifest_with_negative))
       \<in> set (Duplications (analyzeDuplicates insertionSort [''h1''] manifest_with_negative))
   \<and> Files (hd (Duplications
         (analyzeDuplicates insertionSort [''h1''] manifest_with_negative))) = [file_a, file_b]
   \<and> sum_list (map (sint \<circ> Size) (tl (Files (hd (Duplications
         (analyzeDuplicates insertionSort [''h1''] manifest_with_negative)))))) < 2 ^ 64
   \<and> uint (DuplicateSize (hd (Duplications
         (analyzeDuplicates insertionSort [''h1''] manifest_with_negative))))
     = sum_list (map (sint \<circ> Size) (tl (Files (hd (Duplications
         (analyzeDuplicates insertionSort [''h1''] manifest_with_negative))))))
   \<and> sum_list (map (sint \<circ> Size) (tl (Files (hd (Duplications
         (analyzeDuplicates insertionSort [''h1''] manifest_with_negative)))))) = 2000"
proof -
  let ?d = "hd (Duplications (analyzeDuplicates insertionSort [''h1''] manifest_with_negative))"
  have h: "permutes_slices (insertionSort :: File list Duplication slice_sorter)"
    by (rule permutes_insertionSort)
  have n: "sint (Size (hd (bucket manifest_with_negative ''h1''))) = - 5"
    by (simp add: bucket_def manifest_with_negative_def file_n_def)
  have m: "?d \<in> set (Duplications
      (analyzeDuplicates insertionSort [''h1''] manifest_with_negative))"
    by (simp add: report_with_negative)
  have f: "Files ?d = [file_a, file_b]"
    by (simp add: report_with_negative)
  have s: "sum_list (map (sint \<circ> Size) (tl (Files ?d))) = 2000"
    by (simp add: f file_b_def)
  from C10_sizes_nonnegative_sum_mod [OF h, of "[''h1'']" manifest_with_negative] m
  have "(\<Sum>f\<leftarrow>tl (Files ?d). sint (Size f)) < 2 ^ 64 \<longrightarrow>
          uint (DuplicateSize ?d) = (\<Sum>f\<leftarrow>tl (Files ?d). sint (Size f))"
    by blast
  then have "uint (DuplicateSize ?d) = sum_list (map (sint \<circ> Size) (tl (Files ?d)))"
    using s by (simp add: comp_def)
  with h n m f s show ?thesis by simp
qed

text \<open>
  The sum is not always below \<open>2 ^ 64\<close>: in a bucket of four files of size
  \<open>2 ^ 63 - 1\<close> the three counted sizes add up to \<open>3 * 2 ^ 63 - 3\<close>, and
  \<open>DuplicateSize\<close> is \<open>2 ^ 63 - 3\<close>.
\<close>

theorem C10_exact_sum_counterexample:
  "Duplications (analyzeDuplicates insertionSort [''h''] manifest_max)
     = [\<lparr> GroupHash = ''h'',
          Files = [file_max ''m1'', file_max ''m2'', file_max ''m3'', file_max ''m4''],
          DuplicateCount = 3, DuplicateSize = 0x7FFFFFFFFFFFFFFD \<rparr>]
   \<and> sint (Size (file_max ''m2'')) = 9223372036854775807
   \<and> sum_list (map (sint \<circ> Size) (tl (Files (hd (Duplications
         (analyzeDuplicates insertionSort [''h''] manifest_max))))))
     = 27670116110564327421
   \<and> uint (DuplicateSize (hd (Duplications
         (analyzeDuplicates insertionSort [''h''] manifest_max))))
     = 9223372036854775805
   \<and> uint (DuplicateSize (hd (Duplications
         (analyzeDuplicates insertionSort [''h''] manifest_max))))
     \<noteq> sum_list (map (sint \<circ> Size) (tl (Files (hd (Duplications
         (analyzeDuplicates insertionSort [''h''] manifest_max))))))"
  by (simp add: report_max) (simp add: file_max_def)

end
